theory Spec2Isabelle
  imports Main "HOL-Library.Word"
begin

section \<open>Persistent trie (src/primer/trie.cpp, second implementation)\<close>

text \<open>
  The value types the source instantiates \<open>Put\<close> and \<open>Get\<close> with: \<open>uint32_t\<close>,
  \<open>uint64_t\<close>, \<open>std::string\<close>, \<open>Integer = std::unique_ptr<uint32_t>\<close> and
  \<open>MoveBlocked\<close>. A stored value carries its type; \<open>dynamic_cast\<close> in \<open>Get\<close>
  succeeds exactly when the stored type is the expected one.
\<close>

datatype tvalue =
    VU32 "32 word"
  | VU64 "64 word"
  | VString string
  | VInteger "32 word"
  | VMoveBlocked bool

datatype vtype = TU32 | TU64 | TString | TInteger | TMoveBlocked

fun type_of :: "tvalue \<Rightarrow> vtype" where
  "type_of (VU32 _) = TU32"
| "type_of (VU64 _) = TU64"
| "type_of (VString _) = TString"
| "type_of (VInteger _) = TInteger"
| "type_of (VMoveBlocked _) = TMoveBlocked"

text \<open>
  A node: the child map \<open>children\<close> (a \<open>std::map<char, shared_ptr<const TrieNode>>\<close>)
  and the value, present exactly in a \<open>TrieNodeWithValue\<close>. Nodes are immutable once
  they are reachable from a root, so a shared pointer to a node is the node's value.
  \<open>Clone\<close> copies the child map and keeps the value.
\<close>

datatype TrieNode = TrieNode (children: "char \<Rightarrow> TrieNode option") (val: "tvalue option")

definition is_value_node :: "TrieNode \<Rightarrow> bool" where
  "is_value_node n = (val n \<noteq> None)"

text \<open>A trie is its root pointer; \<open>None\<close> is \<open>nullptr\<close>, the empty trie.\<close>

datatype Trie = Trie (root: "TrieNode option")

text \<open>The loop of \<open>Get\<close>: one child edge per key character, \<open>None\<close> when an edge is missing.\<close>

fun walk :: "TrieNode \<Rightarrow> string \<Rightarrow> TrieNode option" where
  "walk node [] = Some node"
| "walk node (c # cs) =
     (case children node c of
        None \<Rightarrow> None
      | Some child \<Rightarrow> walk child cs)"

definition Get :: "Trie \<Rightarrow> string \<Rightarrow> vtype \<Rightarrow> tvalue option" where
  "Get t key ty =
     (case root t of
        None \<Rightarrow> None
      | Some r \<Rightarrow>
          (case walk r key of
             None \<Rightarrow> None
           | Some node \<Rightarrow>
               (case val node of
                  None \<Rightarrow> None
                | Some v \<Rightarrow> if type_of v = ty then Some v else None)))"

text \<open>
  The loop of \<open>Put\<close> over a non-empty key, started at the cloned root. \<open>idx == bound\<close>
  is "this is the last character", that is, the rest of the key is empty. The loop
  writes the new child into the parent it has just cloned; the recursion returns the
  parent rebuilt with that child.
\<close>

fun put_loop :: "TrieNode \<Rightarrow> string \<Rightarrow> tvalue \<Rightarrow> TrieNode" where
  "put_loop node [] v = node"
| "put_loop node (c # cs) v =
     (case children node c of
        None \<Rightarrow>
          if cs = [] then
            TrieNode ((children node)(c \<mapsto> TrieNode Map.empty (Some v))) (val node)
          else
            TrieNode ((children node)(c \<mapsto> put_loop (TrieNode Map.empty None) cs v)) (val node)
      | Some child \<Rightarrow>
          if cs = [] then
            TrieNode ((children node)(c \<mapsto> TrieNode (children child) (Some v))) (val node)
          else
            TrieNode ((children node)(c \<mapsto> put_loop child cs v)) (val node))"

definition Put :: "Trie \<Rightarrow> string \<Rightarrow> tvalue \<Rightarrow> Trie" where
  "Put t key v =
     (let n_root = (case root t of None \<Rightarrow> TrieNode Map.empty None | Some r \<Rightarrow> r) in
      if key \<noteq> [] then Trie (Some (put_loop n_root key v))
      else (case root t of
              None \<Rightarrow> Trie (Some (TrieNode Map.empty (Some v)))
            | Some r \<Rightarrow> Trie (Some (TrieNode (children r) (Some v)))))"

text \<open>
  \<open>Remove\<close> over a non-empty key. The source walks down, cloning the spine and pushing
  \<open>(parent, c)\<close> on a stack, and returns the original trie (\<open>None\<close> here) when an edge
  is missing or the terminal node carries no value; then it pops the stack, from the
  deepest pair up, and erases the child of each pair that has no children and no value.
  \<open>unwind\<close> is one step of that second loop; \<open>remove_loop\<close> is both loops, the
  unwinding done on the way back from the recursion.
\<close>

definition unwind :: "TrieNode \<Rightarrow> char \<Rightarrow> TrieNode \<Rightarrow> TrieNode" where
  "unwind parent c child =
     (if children child = Map.empty \<and> \<not> is_value_node child
      then TrieNode ((children parent)(c := None)) (val parent)
      else TrieNode ((children parent)(c \<mapsto> child)) (val parent))"

fun remove_loop :: "TrieNode \<Rightarrow> string \<Rightarrow> TrieNode option" where
  "remove_loop node [] = Some node"
| "remove_loop parent (c # cs) =
     (case children parent c of
        None \<Rightarrow> None
      | Some child \<Rightarrow>
          if cs = [] then
            (if \<not> is_value_node child then None
             else Some (unwind parent c (TrieNode (children child) None)))
          else
            (case remove_loop child cs of
               None \<Rightarrow> None
             | Some node \<Rightarrow> Some (unwind parent c node)))"

definition Remove :: "Trie \<Rightarrow> string \<Rightarrow> Trie" where
  "Remove t key =
     (case root t of
        None \<Rightarrow> t
      | Some r \<Rightarrow>
          if key = [] then
            (if is_value_node r then
               (if children r = Map.empty then Trie None
                else Trie (Some (TrieNode (children r) None)))
             else t)
          else
            (case remove_loop r key of
               None \<Rightarrow> t
             | Some n_root \<Rightarrow>
                 if children n_root = Map.empty then Trie None else Trie (Some n_root)))"

text \<open>The node a key leads to, if any.\<close>

definition node_at :: "Trie \<Rightarrow> string \<Rightarrow> TrieNode option" where
  "node_at t key = (case root t of None \<Rightarrow> None | Some r \<Rightarrow> walk r key)"

definition children_at :: "Trie \<Rightarrow> string \<Rightarrow> (char \<Rightarrow> TrieNode option)" where
  "children_at t key = (case node_at t key of None \<Rightarrow> Map.empty | Some node \<Rightarrow> children node)"

text \<open>The value stored at a key below a node, whatever its type.\<close>

definition lookup :: "TrieNode \<Rightarrow> string \<Rightarrow> tvalue option" where
  "lookup node key = (case walk node key of None \<Rightarrow> None | Some n \<Rightarrow> val n)"

section \<open>LRU-K replacer (src/buffer/lru_k_replacer.cpp)\<close>

text \<open>
  \<open>LRUKNode\<close>: the access history (oldest first, at most \<open>k_\<close> entries), \<open>k_\<close>, the
  frame id and the evictable flag. The class is declared in a header that is not among
  the sources; its fields and accessors are taken from their uses in the .cpp file.
\<close>

record LRUKNode =
  history :: "nat list"
  node_k :: nat
  fid :: int
  is_evictable :: bool

definition add_timestamp :: "nat \<Rightarrow> LRUKNode \<Rightarrow> LRUKNode" where
  "add_timestamp timestamp node =
     (let h = history node @ [timestamp] in
      node\<lparr>history := (if length h > node_k node then tl h else h)\<rparr>)"

text \<open>
  Modelled from the spec: \<open>LRUKNode::get_access_count\<close>, declared in the missing
  header. The spec gives \<open>history.length = min(access_count, K)\<close> and uses the count
  only to tell fewer than K accesses from at least K; the length of the history
  decides every comparison the source makes (\<open>< k_\<close>, and \<open>== k_\<close> just after an
  access to a node below K).
\<close>

definition get_access_count :: "LRUKNode \<Rightarrow> nat" where
  "get_access_count node = length (history node)"

text \<open>
  Modelled from the spec: \<open>LRUKNode::get_least_recent_timestamp\<close>, declared in the
  missing header: the oldest entry of the history (\<open>history_.front()\<close>), which for a
  node with K accesses is its K-th most recent access. It is read only from nodes that
  have been accessed, whose history is not empty as long as \<open>1 \<le> k_\<close>.
\<close>

definition get_least_recent_timestamp :: "LRUKNode \<Rightarrow> nat" where
  "get_least_recent_timestamp node = hd (history node)"

text \<open>
  The replacer. \<open>node_store_\<close> and the two lists hold \<open>shared_ptr\<close>s to the same node
  objects, and the source mutates a node through one pointer and reads it through
  another, so the objects live in an explicit heap \<open>nodes\<close>: an address is an index
  into it, \<open>make_shared\<close> appends, and a node stays in the heap while a list may still
  point to it. \<open>size_t\<close> counters are naturals; the decrement writes out the
  wrap-around at zero.

  \<open>init_evictable\<close> is the value of the evictable flag in a node fresh from the
  \<open>LRUKNode\<close> constructor. The constructor is in the missing header, so the flag's
  initial value is a parameter of the model, fixed when the replacer is built.
\<close>

record LRUKReplacer =
  nodes :: "LRUKNode list"
  node_store :: "int \<Rightarrow> nat option"
  less_k_list :: "nat list"
  more_k_list :: "nat list"
  curr_size :: nat
  current_timestamp :: nat
  replacer_size :: nat
  repl_k :: nat
  init_evictable :: bool

datatype error = AssertionFailure | NotEvictable | BadFrameIndex

definition LRUKReplacer_init :: "nat \<Rightarrow> nat \<Rightarrow> bool \<Rightarrow> LRUKReplacer" where
  "LRUKReplacer_init num_frames k ev =
     \<lparr>nodes = [], node_store = Map.empty, less_k_list = [], more_k_list = [],
      curr_size = 0, current_timestamp = 0, replacer_size = num_frames, repl_k = k,
      init_evictable = ev\<rparr>"

text \<open>\<open>--curr_size_\<close> on a \<open>size_t\<close>.\<close>

definition dec_size :: "nat \<Rightarrow> nat" where
  "dec_size n = (if n = 0 then 2 ^ 64 - 1 else n - 1)"

text \<open>\<open>static_cast<frame_id_t>(replacer_size_)\<close>: \<open>frame_id_t\<close> is a signed 32-bit integer.\<close>

definition frame_id_cast :: "nat \<Rightarrow> int" where
  "frame_id_cast n = (int n + 2 ^ 31) mod 2 ^ 32 - 2 ^ 31"

text \<open>
  \<open>std::find_if\<close> over \<open>rbegin .. rend\<close>: the last node of the list that is evictable.
\<close>

definition find_evictable :: "LRUKNode list \<Rightarrow> nat list \<Rightarrow> nat option" where
  "find_evictable heap xs = find (\<lambda>a. is_evictable (heap ! a)) (rev xs)"

text \<open>
  \<open>more_k_list_push_node\<close>: insert the node before the first node of the list whose
  least recent timestamp is smaller, at the end if there is none.
\<close>

definition more_k_list_push_node :: "LRUKNode list \<Rightarrow> nat list \<Rightarrow> nat \<Rightarrow> nat list" where
  "more_k_list_push_node heap xs node =
     (let older = (\<lambda>n. get_least_recent_timestamp (heap ! n)
                          < get_least_recent_timestamp (heap ! node)) in
      takeWhile (\<lambda>n. \<not> older n) xs @ node # dropWhile (\<lambda>n. \<not> older n) xs)"

text \<open>
  What \<open>Evict\<close> does with the node it has found, the same in both of its branches but
  for the list: \<open>*frame_id\<close> is the node's frame id, the node leaves the list it was
  found in (\<open>list::remove\<close> drops every pointer to it), the frame's entry of
  \<open>node_store_\<close> is erased and \<open>curr_size_\<close> decremented.
\<close>

definition evict_node :: "LRUKReplacer \<Rightarrow> nat \<Rightarrow> bool \<Rightarrow> int \<times> LRUKReplacer" where
  "evict_node r a from_less =
     (let frame_id = fid (nodes r ! a) in
      (frame_id,
       r\<lparr>less_k_list := (if from_less then removeAll a (less_k_list r) else less_k_list r),
         more_k_list := (if from_less then more_k_list r else removeAll a (more_k_list r)),
         node_store := (node_store r)(frame_id := None),
         curr_size := dec_size (curr_size r)\<rparr>))"

text \<open>\<open>Evict\<close>: \<open>None\<close> is \<open>false\<close>; \<open>Some (f, r')\<close> is \<open>true\<close> with \<open>*frame_id = f\<close>.\<close>

definition Evict :: "LRUKReplacer \<Rightarrow> (int \<times> LRUKReplacer) option" where
  "Evict r =
     (if curr_size r = 0 then None
      else
        (case find_evictable (nodes r) (less_k_list r) of
           Some a \<Rightarrow> Some (evict_node r a True)
         | None \<Rightarrow>
             (case find_evictable (nodes r) (more_k_list r) of
                Some a \<Rightarrow> Some (evict_node r a False)
              | None \<Rightarrow> None)))"

text \<open>
  \<open>BUSTUB_ASSERT\<close> aborts the program when its condition is false (the spec's
  precondition failure): the operation then has no resulting state.
\<close>

definition RecordAccess :: "int \<Rightarrow> LRUKReplacer \<Rightarrow> error + LRUKReplacer" where
  "RecordAccess frame_id r =
     (if \<not> frame_id < frame_id_cast (replacer_size r) then Inl AssertionFailure
      else
        let ts = current_timestamp r + 1;
            r1 = r\<lparr>current_timestamp := ts\<rparr>
        in
        (case node_store r frame_id of
           None \<Rightarrow>
             let a = length (nodes r);
                 n_node = add_timestamp ts
                   \<lparr>history = [], node_k = repl_k r, fid = frame_id,
                    is_evictable = init_evictable r\<rparr>
             in Inr (r1\<lparr>nodes := nodes r @ [n_node],
                        node_store := (node_store r)(frame_id \<mapsto> a),
                        curr_size := curr_size r + 1,
                        less_k_list := a # less_k_list r\<rparr>)
         | Some a \<Rightarrow>
             let node = nodes r ! a;
                 heap = (nodes r)[a := add_timestamp ts node]
             in
             if get_access_count node < repl_k r then
               (if get_access_count (heap ! a) = repl_k r then
                  Inr (r1\<lparr>nodes := heap,
                          more_k_list := more_k_list_push_node heap (more_k_list r) a,
                          less_k_list := removeAll a (less_k_list r)\<rparr>)
                else
                  Inr (r1\<lparr>nodes := heap,
                          less_k_list := a # removeAll a (less_k_list r)\<rparr>))
             else
               Inr (r1\<lparr>nodes := heap,
                       more_k_list :=
                         more_k_list_push_node heap (removeAll a (more_k_list r)) a\<rparr>)))"

definition SetEvictable :: "int \<Rightarrow> bool \<Rightarrow> LRUKReplacer \<Rightarrow> error + LRUKReplacer" where
  "SetEvictable frame_id set_evictable r =
     (if \<not> frame_id < frame_id_cast (replacer_size r) then Inl AssertionFailure
      else
        (case node_store r frame_id of
           None \<Rightarrow> Inr r
         | Some a \<Rightarrow>
             if is_evictable (nodes r ! a) = set_evictable then Inr r
             else
               Inr (r\<lparr>nodes := (nodes r)[a := (nodes r ! a)\<lparr>is_evictable := set_evictable\<rparr>],
                      curr_size := (if set_evictable then curr_size r + 1
                                    else dec_size (curr_size r))\<rparr>)))"

text \<open>\<open>Remove\<close>; \<open>NotEvictable\<close> is the exception "The frame is not evictable".\<close>

definition Remove_frame :: "int \<Rightarrow> LRUKReplacer \<Rightarrow> error + LRUKReplacer" where
  "Remove_frame frame_id r =
     (if \<not> frame_id < frame_id_cast (replacer_size r) then Inl AssertionFailure
      else
        (case node_store r frame_id of
           None \<Rightarrow> Inr r
         | Some a \<Rightarrow>
             if \<not> is_evictable (nodes r ! a) then Inl NotEvictable
             else
               let below = get_access_count (nodes r ! a) < repl_k r in
               Inr (r\<lparr>node_store := (node_store r)(frame_id := None),
                      less_k_list := (if below then removeAll a (less_k_list r)
                                      else less_k_list r),
                      more_k_list := (if below then more_k_list r
                                      else removeAll a (more_k_list r)),
                      curr_size := dec_size (curr_size r)\<rparr>)))"

definition Size :: "LRUKReplacer \<Rightarrow> nat" where
  "Size r = curr_size r"

text \<open>
  Sequences of replacer operations: a run stops at the first operation that aborts or
  throws. An \<open>Evict\<close> that returns \<open>false\<close> leaves the state as it is.
\<close>

datatype replacer_op =
    OpRecordAccess int
  | OpSetEvictable int bool
  | OpEvict
  | OpRemove int

fun step :: "replacer_op \<Rightarrow> LRUKReplacer \<Rightarrow> error + LRUKReplacer" where
  "step (OpRecordAccess f) r = RecordAccess f r"
| "step (OpSetEvictable f b) r = SetEvictable f b r"
| "step OpEvict r = (case Evict r of None \<Rightarrow> Inr r | Some (f, r') \<Rightarrow> Inr r')"
| "step (OpRemove f) r = Remove_frame f r"

fun run :: "replacer_op list \<Rightarrow> LRUKReplacer \<Rightarrow> error + LRUKReplacer" where
  "run [] r = Inr r"
| "run (op # ops) r = (case step op r of Inl e \<Rightarrow> Inl e | Inr r' \<Rightarrow> run ops r')"

text \<open>The frames the replacer tracks and marks evictable, and their number.\<close>

definition evictable_frames :: "LRUKReplacer \<Rightarrow> int set" where
  "evictable_frames r = {f. \<exists>a. node_store r f = Some a \<and> is_evictable (nodes r ! a)}"

definition evictable_count :: "LRUKReplacer \<Rightarrow> nat" where
  "evictable_count r = card (evictable_frames r)"

section \<open>Replacer: invariants of the reachable states\<close>

text \<open>
  \<open>tracked r a\<close>: the node at address \<open>a\<close> is the one \<open>node_store_\<close> holds for
  its frame. \<open>replacer_inv\<close>, for \<open>2 \<le> k_\<close>: every entry of \<open>node_store_\<close> points to
  a node of the heap with that frame id, the replacer's \<open>k_\<close> and a non-empty history;
  \<open>less_k_list\<close> holds exactly the tracked nodes with fewer than \<open>k_\<close> accesses and
  \<open>more_k_list\<close> exactly those with at least \<open>k_\<close>. \<open>size_inv\<close>: \<open>curr_size_\<close> is at
  least the number of evictable tracked frames, and equal to it when nodes start
  evictable.
\<close>

definition tracked :: "LRUKReplacer \<Rightarrow> nat \<Rightarrow> bool" where
  "tracked r a = (a < length (nodes r) \<and> node_store r (fid (nodes r ! a)) = Some a)"

definition replacer_inv :: "LRUKReplacer \<Rightarrow> bool" where
  "replacer_inv r =
     (2 \<le> repl_k r \<and>
      finite (dom (node_store r)) \<and>
      (\<forall>f a. node_store r f = Some a \<longrightarrow>
         a < length (nodes r) \<and> fid (nodes r ! a) = f \<and> node_k (nodes r ! a) = repl_k r \<and>
         history (nodes r ! a) \<noteq> []) \<and>
      (\<forall>a. a \<in> set (less_k_list r) \<longleftrightarrow>
         tracked r a \<and> get_access_count (nodes r ! a) < repl_k r) \<and>
      (\<forall>a. a \<in> set (more_k_list r) \<longleftrightarrow>
         tracked r a \<and> repl_k r \<le> get_access_count (nodes r ! a)))"

definition size_inv :: "LRUKReplacer \<Rightarrow> bool" where
  "size_inv r =
     (evictable_count r \<le> curr_size r \<and>
      (init_evictable r \<longrightarrow> curr_size r = evictable_count r))"

definition replacer_ok :: "LRUKReplacer \<Rightarrow> bool" where
  "replacer_ok r = (replacer_inv r \<and> size_inv r)"

text \<open>
  \<open>store_inv\<close>, for \<open>1 \<le> k_\<close>: every entry of \<open>node_store_\<close> points to a node of the
  heap that has the replacer's \<open>k_\<close> and a non-empty history.
\<close>

definition store_inv :: "LRUKReplacer \<Rightarrow> bool" where
  "store_inv r =
     (1 \<le> repl_k r \<and>
      (\<forall>f a. node_store r f = Some a \<longrightarrow>
         a < length (nodes r) \<and> node_k (nodes r ! a) = repl_k r \<and>
         history (nodes r ! a) \<noteq> []))"

text \<open>
  \<open>more_k_sorted\<close>: from front to back the nodes of \<open>more_k_list\<close> have
  non-increasing least recent timestamps, so that the back of the list, where \<open>Evict\<close>
  starts its scan, holds the node whose K-th most recent access is the oldest.
\<close>

definition sorted_by_oldest :: "LRUKNode list \<Rightarrow> nat list \<Rightarrow> bool" where
  "sorted_by_oldest heap xs =
     sorted_wrt (\<lambda>a b. get_least_recent_timestamp (heap ! b)
                        \<le> get_least_recent_timestamp (heap ! a)) xs"

definition more_k_sorted :: "LRUKReplacer \<Rightarrow> bool" where
  "more_k_sorted r = sorted_by_oldest (nodes r) (more_k_list r)"

section \<open>Replacer: scenarios\<close>

text \<open>\<open>n\<close> calls of \<open>Evict\<close> in a row and what each returned (\<open>None\<close> for \<open>false\<close>).\<close>

fun evict_times :: "nat \<Rightarrow> LRUKReplacer \<Rightarrow> int option list" where
  "evict_times 0 r = []"
| "evict_times (Suc n) r =
     (case Evict r of
        None \<Rightarrow> None # evict_times n r
      | Some (f, r') \<Rightarrow> Some f # evict_times n r')"

text \<open>
  Four frames, each accessed twice in the order A B C D A B C D, then all four marked
  evictable.
\<close>

definition abcd_accesses :: "int \<Rightarrow> int \<Rightarrow> int \<Rightarrow> int \<Rightarrow> replacer_op list" where
  "abcd_accesses A B C D =
     [OpRecordAccess A, OpRecordAccess B, OpRecordAccess C, OpRecordAccess D,
      OpRecordAccess A, OpRecordAccess B, OpRecordAccess C, OpRecordAccess D,
      OpSetEvictable A True, OpSetEvictable B True, OpSetEvictable C True,
      OpSetEvictable D True]"

text \<open>
  The replacer of 7 frames with \<open>K = 2\<close> after a single \<open>RecordAccess(0)\<close>, for either
  initial value of the evictable flag.
\<close>

definition one_access_state :: "bool \<Rightarrow> LRUKReplacer" where
  "one_access_state ev =
     \<lparr>nodes = [\<lparr>history = [1], node_k = 2, fid = 0, is_evictable = ev\<rparr>],
      node_store = [0 \<mapsto> 0], less_k_list = [0], more_k_list = [], curr_size = 1,
      current_timestamp = 1, replacer_size = 7, repl_k = 2, init_evictable = ev\<rparr>"

text \<open>
  The replacer of 7 frames with \<open>K = 1\<close> and nodes created evictable, after
  \<open>RecordAccess(0)\<close>, \<open>Remove(0)\<close>, \<open>RecordAccess(1)\<close>, \<open>Evict\<close>: frame 1 is tracked
  and evictable and the counter is 0.
\<close>

definition stale_state :: LRUKReplacer where
  "stale_state =
     \<lparr>nodes = [\<lparr>history = [1], node_k = 1, fid = 0, is_evictable = True\<rparr>,
               \<lparr>history = [2], node_k = 1, fid = 1, is_evictable = True\<rparr>],
      node_store = [1 \<mapsto> 1], less_k_list = [1], more_k_list = [], curr_size = 0,
      current_timestamp = 2, replacer_size = 7, repl_k = 1, init_evictable = True\<rparr>"

text \<open>The replacer of 7 frames with \<open>K = 2\<close> after \<open>RecordAccess(-1)\<close>.\<close>

definition negative_frame_state :: LRUKReplacer where
  "negative_frame_state =
     \<lparr>nodes = [\<lparr>history = [1], node_k = 2, fid = - 1, is_evictable = False\<rparr>],
      node_store = [- 1 \<mapsto> 0], less_k_list = [0], more_k_list = [], curr_size = 1,
      current_timestamp = 1, replacer_size = 7, repl_k = 2, init_evictable = False\<rparr>"

section \<open>Buffer pool manager (src/buffer/buffer_pool_manager.cpp)\<close>

text \<open>
  A page frame: the byte buffer and the metadata. \<open>page_id_t\<close> and the pin count are
  signed 32-bit integers in the source; they are integers here, and the counters stay
  far from the 32-bit bounds.
\<close>

record Page =
  data :: "8 word list"
  page_id :: int
  pin_count :: int
  is_dirty :: bool

text \<open>
  \<open>INVALID_PAGE_ID\<close>, the spec's "no page", is a constant of \<open>common/config.h\<close>, which
  is not among the sources.
\<close>

definition INVALID_PAGE_ID :: int where
  "INVALID_PAGE_ID = - 1"

text \<open>
  The page size is a constant of \<open>common/config.h\<close>, which is not among the sources;
  nothing below depends on its value.
\<close>

definition BUSTUB_PAGE_SIZE :: nat where
  "BUSTUB_PAGE_SIZE = 4096"

text \<open>
  Modelled from the spec: the methods of \<open>Page\<close>, declared in \<open>storage/page/page.h\<close>,
  which is not among the sources. \<open>ResetMemory\<close> zeroes the buffer, \<open>ResetMetadata\<close>
  sets the page id to invalid, the pin count to zero and the dirty flag to false
  ("zero the frame's memory and metadata"), \<open>Pin\<close> and \<open>Unpin\<close> add and subtract one,
  \<open>MarkDirty\<close> and \<open>SetPageId\<close> store their argument.
\<close>

definition ResetMemory :: "Page \<Rightarrow> Page" where
  "ResetMemory p = p\<lparr>data := replicate BUSTUB_PAGE_SIZE 0\<rparr>"

definition ResetMetadata :: "Page \<Rightarrow> Page" where
  "ResetMetadata p = p\<lparr>page_id := INVALID_PAGE_ID, pin_count := 0, is_dirty := False\<rparr>"

definition Pin :: "Page \<Rightarrow> Page" where
  "Pin p = p\<lparr>pin_count := pin_count p + 1\<rparr>"

definition Unpin :: "Page \<Rightarrow> Page" where
  "Unpin p = p\<lparr>pin_count := pin_count p - 1\<rparr>"

definition MarkDirty :: "bool \<Rightarrow> Page \<Rightarrow> Page" where
  "MarkDirty b p = p\<lparr>is_dirty := b\<rparr>"

definition SetPageId :: "int \<Rightarrow> Page \<Rightarrow> Page" where
  "SetPageId pid p = p\<lparr>page_id := pid\<rparr>"

text \<open>
  Modelled from the spec: the disk manager, an external collaborator of which the
  sources hold only the calls. Its state is the stored pages and the sequence of the
  calls it has received, in order; \<open>write_page\<close> persists the bytes, \<open>read_page\<close>
  returns the stored bytes (zeroes for a page never written), \<open>deallocate_page\<close> is
  recorded and changes nothing else.
\<close>

datatype disk_event =
    EvWritePage int "8 word list"
  | EvReadPage int
  | EvDeallocatePage int

record DiskManager =
  disk_pages :: "int \<Rightarrow> 8 word list option"
  disk_log :: "disk_event list"

definition WritePage :: "int \<Rightarrow> 8 word list \<Rightarrow> DiskManager \<Rightarrow> DiskManager" where
  "WritePage pid bytes d =
     d\<lparr>disk_pages := (disk_pages d)(pid \<mapsto> bytes), disk_log := disk_log d @ [EvWritePage pid bytes]\<rparr>"

definition ReadPage :: "int \<Rightarrow> DiskManager \<Rightarrow> 8 word list \<times> DiskManager" where
  "ReadPage pid d =
     ((case disk_pages d pid of None \<Rightarrow> replicate BUSTUB_PAGE_SIZE 0 | Some bytes \<Rightarrow> bytes),
      d\<lparr>disk_log := disk_log d @ [EvReadPage pid]\<rparr>)"

text \<open>
  Modelled from the spec: \<open>BufferPoolManager::DeallocatePage\<close>, declared in the
  missing header \<open>buffer/buffer_pool_manager.h\<close>: it "notifies the disk manager to
  deallocate".
\<close>

definition DeallocatePage :: "int \<Rightarrow> DiskManager \<Rightarrow> DiskManager" where
  "DeallocatePage pid d = d\<lparr>disk_log := disk_log d @ [EvDeallocatePage pid]\<rparr>"

definition is_write :: "disk_event \<Rightarrow> bool" where
  "is_write e = (case e of EvWritePage _ _ \<Rightarrow> True | _ \<Rightarrow> False)"

text \<open>
  The manager. \<open>pages_\<close> is the array of \<open>pool_size_\<close> frames; the page table is the
  \<open>unordered_map\<close> from page id to frame id; \<open>replacer_\<close> is never null after
  construction; the page id counter starts at 0. The mutex is not modelled: every
  public operation runs under it from start to end.
\<close>

record BufferPoolManager =
  pool_size :: nat
  pages :: "Page list"
  page_table :: "int \<Rightarrow> int option"
  free_list :: "int list"
  replacer :: LRUKReplacer
  next_page_id :: int
  disk_manager :: DiskManager

definition new_frame :: Page where
  "new_frame = \<lparr>data = replicate BUSTUB_PAGE_SIZE 0, page_id = INVALID_PAGE_ID,
                 pin_count = 0, is_dirty = False\<rparr>"

definition BufferPoolManager_init ::
  "nat \<Rightarrow> DiskManager \<Rightarrow> nat \<Rightarrow> bool \<Rightarrow> BufferPoolManager" where
  "BufferPoolManager_init n dm replacer_k ev =
     \<lparr>pool_size = n, pages = replicate n new_frame, page_table = Map.empty,
      free_list = map int [0..<n], replacer = LRUKReplacer_init n replacer_k ev,
      next_page_id = 0, disk_manager = dm\<rparr>"

text \<open>
  \<open>pages_[frame_id]\<close> is defined only for an index inside the array; an access
  outside it is the error \<open>BadFrameIndex\<close>.
\<close>

definition frame_ok :: "BufferPoolManager \<Rightarrow> int \<Rightarrow> bool" where
  "frame_ok s frame_id = (0 \<le> frame_id \<and> nat frame_id < length (pages s))"

text \<open>
  \<open>getNewFrame(page_id, is_new)\<close>. The result \<open>None\<close> is \<open>nullptr\<close>; \<open>Some (f, p)\<close> is
  the pointer to frame \<open>f\<close> together with the value of \<open>*page_id\<close> on return.
  \<open>AllocatePage\<close> is \<open>next_page_id_++\<close>.
\<close>

definition getNewFrame ::
  "BufferPoolManager \<Rightarrow> int \<Rightarrow> bool \<Rightarrow> error + ((int \<times> int) option \<times> BufferPoolManager)" where
  "getNewFrame s pid is_new =
     (let acquired =
        (case free_list s of
           frame_id # rest \<Rightarrow> Inr (Some (frame_id, s\<lparr>free_list := rest\<rparr>))
         | [] \<Rightarrow>
             (case Evict (replacer s) of
                Some (frame_id, r') \<Rightarrow>
                  if \<not> frame_ok s frame_id then Inl BadFrameIndex
                  else
                    let old = pages s ! nat frame_id;
                        dm = (if is_dirty old
                              then WritePage (page_id old) (data old) (disk_manager s)
                              else disk_manager s)
                    in Inr (Some (frame_id,
                                  s\<lparr>replacer := r', disk_manager := dm,
                                    page_table := (page_table s)(page_id old := None)\<rparr>))
              | None \<Rightarrow> Inr None))
      in
      case acquired of
        Inl e \<Rightarrow> Inl e
      | Inr None \<Rightarrow> Inr (None, s)
      | Inr (Some (frame_id, s1)) \<Rightarrow>
          if \<not> frame_ok s1 frame_id then Inl BadFrameIndex
          else
            let frame = ResetMemory (ResetMetadata (pages s1 ! nat frame_id));
                new_pid = (if is_new then next_page_id s1 else pid);
                next = (if is_new then next_page_id s1 + 1 else next_page_id s1);
                frame = SetPageId new_pid frame
            in
            (case RecordAccess frame_id (replacer s1) of
               Inl e \<Rightarrow> Inl e
             | Inr r1 \<Rightarrow>
                 let frame = Pin frame in
                 (case SetEvictable frame_id False r1 of
                    Inl e \<Rightarrow> Inl e
                  | Inr r2 \<Rightarrow>
                      Inr (Some (frame_id, new_pid),
                           s1\<lparr>pages := (pages s1)[nat frame_id := frame],
                              next_page_id := next,
                              replacer := r2,
                              page_table := (page_table s1)(new_pid \<mapsto> frame_id)\<rparr>))))"

text \<open>
  \<open>NewPage\<close> calls \<open>getNewFrame(page_id)\<close> with \<open>is_new\<close> at its default, true; the
  incoming value of \<open>*page_id\<close> is then never read.
\<close>

definition NewPage :: "BufferPoolManager \<Rightarrow> error + ((int \<times> int) option \<times> BufferPoolManager)" where
  "NewPage s = getNewFrame s INVALID_PAGE_ID True"

text \<open>\<open>FetchPage\<close>: the result is the frame holding the page, or \<open>None\<close> for \<open>nullptr\<close>.\<close>

definition FetchPage :: "BufferPoolManager \<Rightarrow> int \<Rightarrow> error + (int option \<times> BufferPoolManager)" where
  "FetchPage s pid =
     (case page_table s pid of
        None \<Rightarrow>
          (case getNewFrame s pid False of
             Inl e \<Rightarrow> Inl e
           | Inr (None, s') \<Rightarrow> Inr (None, s')
           | Inr (Some (frame_id, _), s') \<Rightarrow>
               let (bytes, dm) = ReadPage pid (disk_manager s') in
               Inr (Some frame_id,
                    s'\<lparr>pages := (pages s')[nat frame_id := (pages s' ! nat frame_id)\<lparr>data := bytes\<rparr>],
                       disk_manager := dm\<rparr>))
      | Some frame_id \<Rightarrow>
          if \<not> frame_ok s frame_id then Inl BadFrameIndex
          else
            let frame = Pin (pages s ! nat frame_id) in
            (case SetEvictable frame_id False (replacer s) of
               Inl e \<Rightarrow> Inl e
             | Inr r1 \<Rightarrow>
                 (case RecordAccess frame_id r1 of
                    Inl e \<Rightarrow> Inl e
                  | Inr r2 \<Rightarrow>
                      Inr (Some frame_id,
                           s\<lparr>pages := (pages s)[nat frame_id := frame], replacer := r2\<rparr>))))"

definition UnpinPage :: "BufferPoolManager \<Rightarrow> int \<Rightarrow> bool \<Rightarrow> error + (bool \<times> BufferPoolManager)" where
  "UnpinPage s pid dirty =
     (case page_table s pid of
        None \<Rightarrow> Inr (False, s)
      | Some frame_id \<Rightarrow>
          if \<not> frame_ok s frame_id then Inl BadFrameIndex
          else
            let frame = pages s ! nat frame_id in
            if pin_count frame = 0 then Inr (False, s)
            else
              let frame = Unpin (MarkDirty (dirty \<or> is_dirty frame) frame);
                  s1 = s\<lparr>pages := (pages s)[nat frame_id := frame]\<rparr>
              in
              if pin_count frame = 0 then
                (case SetEvictable frame_id True (replacer s) of
                   Inl e \<Rightarrow> Inl e
                 | Inr r1 \<Rightarrow> Inr (True, s1\<lparr>replacer := r1\<rparr>))
              else Inr (True, s1))"

definition FlushPage :: "BufferPoolManager \<Rightarrow> int \<Rightarrow> error + (bool \<times> BufferPoolManager)" where
  "FlushPage s pid =
     (case page_table s pid of
        None \<Rightarrow> Inr (False, s)
      | Some frame_id \<Rightarrow>
          if \<not> frame_ok s frame_id then Inl BadFrameIndex
          else
            let frame = pages s ! nat frame_id in
            Inr (True,
                 s\<lparr>disk_manager := WritePage pid (data frame) (disk_manager s),
                   pages := (pages s)[nat frame_id := MarkDirty False frame]\<rparr>))"

definition DeletePage :: "BufferPoolManager \<Rightarrow> int \<Rightarrow> error + (bool \<times> BufferPoolManager)" where
  "DeletePage s pid =
     (case page_table s pid of
        None \<Rightarrow> Inr (True, s)
      | Some frame_id \<Rightarrow>
          if \<not> frame_ok s frame_id then Inl BadFrameIndex
          else
            let frame = pages s ! nat frame_id in
            if pin_count frame > 0 then Inr (False, s)
            else
              (case Remove_frame frame_id (replacer s) of
                 Inl e \<Rightarrow> Inl e
               | Inr r1 \<Rightarrow>
                   Inr (True,
                        s\<lparr>replacer := r1,
                          page_table := (page_table s)(pid := None),
                          pages := (pages s)[nat frame_id := ResetMetadata (ResetMemory frame)],
                          free_list := free_list s @ [frame_id],
                          disk_manager := DeallocatePage pid (disk_manager s)\<rparr>)))"

text \<open>
  Sequences of manager operations, from construction: a run stops at the first
  operation that aborts or throws. \<open>table_inv\<close>: the free list has no duplicates, and
  every page table entry points to a frame inside the pool that is not on the free list
  and holds that page's id.
\<close>

datatype bpm_op =
    OpNewPage
  | OpFetchPage int
  | OpUnpinPage int bool
  | OpFlushPage int
  | OpDeletePage int

fun bpm_step :: "bpm_op \<Rightarrow> BufferPoolManager \<Rightarrow> error + BufferPoolManager" where
  "bpm_step OpNewPage s = map_sum id snd (NewPage s)"
| "bpm_step (OpFetchPage p) s = map_sum id snd (FetchPage s p)"
| "bpm_step (OpUnpinPage p d) s = map_sum id snd (UnpinPage s p d)"
| "bpm_step (OpFlushPage p) s = map_sum id snd (FlushPage s p)"
| "bpm_step (OpDeletePage p) s = map_sum id snd (DeletePage s p)"

fun bpm_run :: "bpm_op list \<Rightarrow> BufferPoolManager \<Rightarrow> error + BufferPoolManager" where
  "bpm_run [] s = Inr s"
| "bpm_run (op # ops) s = (case bpm_step op s of Inl e \<Rightarrow> Inl e | Inr s' \<Rightarrow> bpm_run ops s')"

definition table_inv :: "BufferPoolManager \<Rightarrow> bool" where
  "table_inv s =
     (distinct (free_list s) \<and>
      (\<forall>p f. page_table s p = Some f \<longrightarrow>
         f \<notin> set (free_list s) \<and> frame_ok s f \<and> page_id (pages s ! nat f) = p))"

section \<open>Buffer pool manager: scenarios\<close>

definition empty_disk :: DiskManager where
  "empty_disk = \<lparr>disk_pages = Map.empty, disk_log = []\<rparr>"

definition zero_bytes :: "8 word list" where
  "zero_bytes = replicate BUSTUB_PAGE_SIZE 0"

text \<open>A pool of one frame after \<open>NewPage\<close>: frame 0 holds page 0, pinned once.\<close>

definition pinned_pool :: BufferPoolManager where
  "pinned_pool =
     \<lparr>pool_size = 1,
      pages = [\<lparr>data = zero_bytes, page_id = 0, pin_count = 1, is_dirty = False\<rparr>],
      page_table = [0 \<mapsto> 0],
      free_list = [],
      replacer =
        \<lparr>nodes = [\<lparr>history = [1], node_k = 2, fid = 0, is_evictable = False\<rparr>],
         node_store = [0 \<mapsto> 0], less_k_list = [0], more_k_list = [], curr_size = 0,
         current_timestamp = 1, replacer_size = 1, repl_k = 2, init_evictable = True\<rparr>,
      next_page_id = 1,
      disk_manager = empty_disk\<rparr>"

text \<open>The same pool after \<open>UnpinPage(0, true)\<close>: page 0 is dirty, unpinned and evictable.\<close>

definition dirty_pool :: BufferPoolManager where
  "dirty_pool =
     \<lparr>pool_size = 1,
      pages = [\<lparr>data = zero_bytes, page_id = 0, pin_count = 0, is_dirty = True\<rparr>],
      page_table = [0 \<mapsto> 0],
      free_list = [],
      replacer =
        \<lparr>nodes = [\<lparr>history = [1], node_k = 2, fid = 0, is_evictable = True\<rparr>],
         node_store = [0 \<mapsto> 0], less_k_list = [0], more_k_list = [], curr_size = 1,
         current_timestamp = 1, replacer_size = 1, repl_k = 2, init_evictable = True\<rparr>,
      next_page_id = 1,
      disk_manager = empty_disk\<rparr>"

text \<open>
  A pool of one frame whose replacer has \<open>K = 1\<close>, after \<open>NewPage\<close> and
  \<open>UnpinPage(0, true)\<close>: page 0 is resident in frame 0, unpinned and dirty. The
  counter of the replacer depends on the initial value of the evictable flag.
\<close>

definition k1_dirty_pool :: "bool \<Rightarrow> BufferPoolManager" where
  "k1_dirty_pool ev =
     \<lparr>pool_size = 1,
      pages = [\<lparr>data = zero_bytes, page_id = 0, pin_count = 0, is_dirty = True\<rparr>],
      page_table = [0 \<mapsto> 0],
      free_list = [],
      replacer =
        \<lparr>nodes = [\<lparr>history = [1], node_k = 1, fid = 0, is_evictable = True\<rparr>],
         node_store = [0 \<mapsto> 0], less_k_list = [0], more_k_list = [],
         curr_size = (if ev then 1 else 2),
         current_timestamp = 1, replacer_size = 1, repl_k = 1, init_evictable = ev\<rparr>,
      next_page_id = 1,
      disk_manager = empty_disk\<rparr>"

text \<open>The same pool after \<open>DeletePage(0)\<close>.\<close>

definition k1_deleted_pool :: "bool \<Rightarrow> BufferPoolManager" where
  "k1_deleted_pool ev =
     \<lparr>pool_size = 1,
      pages = [new_frame],
      page_table = Map.empty,
      free_list = [0],
      replacer =
        \<lparr>nodes = [\<lparr>history = [1], node_k = 1, fid = 0, is_evictable = True\<rparr>],
         node_store = Map.empty, less_k_list = [0], more_k_list = [],
         curr_size = (if ev then 0 else 1),
         current_timestamp = 1, replacer_size = 1, repl_k = 1, init_evictable = ev\<rparr>,
      next_page_id = 1,
      disk_manager = \<lparr>disk_pages = Map.empty, disk_log = [EvDeallocatePage 0]\<rparr>\<rparr>"

text \<open>
  A pool of two frames with \<open>K = 1\<close>: page 0 is created, unpinned and deleted; pages 1
  and 2 are created, page 2 in the frame page 0 had; page 1 is unpinned.
\<close>

definition k1_victim_ops :: "bpm_op list" where
  "k1_victim_ops =
     [OpNewPage, OpUnpinPage 0 True, OpDeletePage 0, OpNewPage, OpNewPage, OpUnpinPage 1 False]"

section \<open>Trie: put then get\<close>

lemma walk_put_loop:
  "key \<noteq> [] \<Longrightarrow>
   walk (put_loop node key v) key =
     Some (TrieNode (case walk node key of None \<Rightarrow> Map.empty | Some n \<Rightarrow> children n) (Some v))"
proof (induction node key v rule: put_loop.induct)
  case (1 node v)
  then show ?case by simp
next
  case (2 node c cs v)
  show ?case
  proof (cases "children node c")
    case None
    show ?thesis
    proof (cases "cs = []")
      case True
      with None show ?thesis by simp
    next
      case False
      have "walk (TrieNode Map.empty None) cs = None"
        using False by (cases cs) simp_all
      with None False "2.IH"(1) show ?thesis by simp
    qed
  next
    case (Some child)
    show ?thesis
    proof (cases "cs = []")
      case True
      with Some show ?thesis by simp
    next
      case False
      with Some "2.IH"(2) show ?thesis by simp
    qed
  qed
qed

lemma node_at_Put:
  "node_at (Put t key v) key = Some (TrieNode (children_at t key) (Some v))"
proof (cases "key = []")
  case True
  then show ?thesis
    by (simp add: node_at_def children_at_def Put_def split: option.splits)
next
  case False
  show ?thesis
  proof (cases "root t")
    case None
    have "walk (TrieNode Map.empty None) key = None"
      using False by (cases key) simp_all
    with None False walk_put_loop [of key "TrieNode Map.empty None" v] show ?thesis
      by (simp add: node_at_def children_at_def Put_def)
  next
    case (Some r0)
    with False walk_put_loop [of key r0 v] show ?thesis
      by (simp add: node_at_def children_at_def Put_def)
  qed
qed

text \<open>
  C3. For every trie, every key (the empty key too) and every value of a supported
  type, \<open>Put\<close> returns a trie (it is a total function) in which \<open>Get\<close> at the same
  key with the value's type returns the value; the node at the key carries the new
  value and the children the node at that key had before (none if there was no node),
  whatever value it held.
\<close>

theorem put_get_roundtrip:
  "Get (Put t key v) key (type_of v) = Some v \<and>
   node_at (Put t key v) key = Some (TrieNode (children_at t key) (Some v))"
proof -
  have n: "node_at (Put t key v) key = Some (TrieNode (children_at t key) (Some v))"
    by (rule node_at_Put)
  obtain r where r: "root (Put t key v) = Some r"
    using n by (auto simp: node_at_def split: option.splits)
  with n have "walk r key = Some (TrieNode (children_at t key) (Some v))"
    by (simp add: node_at_def)
  with r have "Get (Put t key v) key (type_of v) = Some v"
    by (simp add: Get_def)
  with n show ?thesis by simp
qed

section \<open>Trie: remove\<close>

text \<open>
  C2 (the code departs from the claim). The trie built by \<open>Put("", 1)\<close> then
  \<open>Put("a", 2)\<close> holds 1 at the root. \<open>Remove("a")\<close> unlinks the node of \<open>"a"\<close>, finds
  the root without children and returns the empty trie: the test at the end of
  \<open>Remove\<close> looks at \<open>children_.empty()\<close> only, not at \<open>is_value_node_\<close> as the test
  inside the unwinding loop does. The value under the empty key, a key other than
  \<open>"a"\<close>, is lost.
\<close>

theorem remove_drops_root_value:
  "Get (Put (Put (Trie None) [] (VU32 1)) ''a'' (VU32 2)) [] TU32 = Some (VU32 1) \<and>
   Remove (Put (Put (Trie None) [] (VU32 1)) ''a'' (VU32 2)) ''a'' = Trie None \<and>
   Get (Remove (Put (Put (Trie None) [] (VU32 1)) ''a'' (VU32 2)) ''a'') [] TU32 = None"
  by (simp add: Remove_def Put_def unwind_def is_value_node_def Get_def)

text \<open>
  Apart from that case \<open>Remove\<close> keeps every other key: unless the key is not empty,
  the root holds a value and the result is the empty trie, \<open>Get\<close> at a different key
  returns after \<open>Remove\<close> what it returned before.
\<close>

lemma lookup_Nil [simp]: "lookup node [] = val node"
  by (simp add: lookup_def)

lemma lookup_Cons [simp]:
  "lookup node (c # cs) = (case children node c of None \<Rightarrow> None | Some child \<Rightarrow> lookup child cs)"
  by (simp add: lookup_def split: option.splits)

lemma lookup_childless:
  "children node = Map.empty \<Longrightarrow> lookup node key = (if key = [] then val node else None)"
  by (cases key) simp_all

lemma lookup_same_children:
  "children n = children m \<Longrightarrow> key \<noteq> [] \<Longrightarrow> lookup n key = lookup m key"
  by (cases key) simp_all

lemma Get_lookup:
  "Get t key ty =
     (case root t of
        None \<Rightarrow> None
      | Some r \<Rightarrow> (case lookup r key of
                     None \<Rightarrow> None
                   | Some v \<Rightarrow> if type_of v = ty then Some v else None))"
  by (simp add: Get_def lookup_def split: option.splits)

lemma lookup_unwind:
  assumes "\<And>ds. ds \<noteq> cs \<Longrightarrow> lookup node ds = lookup child ds"
    and "children parent c = Some child" and "key' \<noteq> c # cs"
  shows "lookup (unwind parent c node) key' = lookup parent key'"
proof (cases key')
  case Nil
  then show ?thesis by (simp add: unwind_def)
next
  case (Cons d ds)
  show ?thesis
  proof (cases "d = c")
    case False
    with Cons show ?thesis by (simp add: unwind_def)
  next
    case True
    with Cons assms(3) have ne: "ds \<noteq> cs" by simp
    have "lookup (unwind parent c node) (c # ds) = lookup node ds"
      by (auto simp: unwind_def is_value_node_def lookup_childless)
    with True Cons assms(1) [OF ne] assms(2) show ?thesis by simp
  qed
qed

lemma remove_loop_lookup:
  "remove_loop node key = Some node' \<Longrightarrow> key \<noteq> [] \<Longrightarrow> key' \<noteq> key \<Longrightarrow>
   lookup node' key' = lookup node key'"
proof (induction node key arbitrary: node' key' rule: remove_loop.induct)
  case (1 node)
  then show ?case by simp
next
  case (2 parent c cs)
  from "2.prems"(1) obtain child where child: "children parent c = Some child"
    by (auto split: option.splits)
  show ?case
  proof (cases "cs = []")
    case True
    let ?node = "TrieNode (children child) None"
    from "2.prems"(1) child True have n': "node' = unwind parent c ?node"
      by (auto split: if_splits)
    have "lookup ?node ds = lookup child ds" if "ds \<noteq> cs" for ds
      using that True by (intro lookup_same_children) simp_all
    then show ?thesis using child "2.prems"(3) unfolding n' by (rule lookup_unwind)
  next
    case False
    with "2.prems"(1) child obtain node where node: "remove_loop child cs = Some node"
      and n': "node' = unwind parent c node"
      by (auto split: option.splits)
    have "lookup node ds = lookup child ds" if "ds \<noteq> cs" for ds
      using "2.IH" [OF child False node False that] .
    then show ?thesis using child "2.prems"(3) unfolding n' by (rule lookup_unwind)
  qed
qed

lemma remove_keeps_other_keys:
  assumes ne: "key' \<noteq> key"
    and ok: "\<not> (key \<noteq> [] \<and> (\<exists>r. root t = Some r \<and> is_value_node r) \<and> root (Remove t key) = None)"
  shows "Get (Remove t key) key' ty = Get t key' ty"
proof (cases "root t")
  case None
  then show ?thesis by (simp add: Remove_def)
next
  case (Some r)
  show ?thesis
  proof (cases "key = []")
    case True
    with ne have k': "key' \<noteq> []" by simp
    show ?thesis
    proof (cases "is_value_node r")
      case False
      with Some True show ?thesis by (simp add: Remove_def)
    next
      case valued: True
      show ?thesis
      proof (cases "children r = Map.empty")
        case empty: True
        with k' have "lookup r key' = None" by (simp add: lookup_childless)
        moreover from Some True valued empty have "Remove t key = Trie None"
          by (simp add: Remove_def)
        ultimately show ?thesis using Some by (simp add: Get_lookup)
      next
        case nonempty: False
        from k' have "lookup (TrieNode (children r) None) key' = lookup r key'"
          by (intro lookup_same_children) simp_all
        moreover from Some True valued nonempty
        have "Remove t key = Trie (Some (TrieNode (children r) None))"
          by (simp add: Remove_def)
        ultimately show ?thesis using Some by (simp add: Get_lookup)
      qed
    qed
  next
    case False
    show ?thesis
    proof (cases "remove_loop r key")
      case None
      with Some False show ?thesis by (simp add: Remove_def)
    next
      case (Some n_root)
      from remove_loop_lookup [OF Some False ne]
      have l: "lookup n_root key' = lookup r key'" .
      from remove_loop_lookup [OF Some False, of "[]"] False
      have v: "val n_root = val r" by simp
      show ?thesis
      proof (cases "children n_root = Map.empty")
        case empty: True
        with Some \<open>root t = Some r\<close> False have gone: "Remove t key = Trie None"
          by (simp add: Remove_def)
        with ok False \<open>root t = Some r\<close> have "val r = None"
          by (simp add: is_value_node_def)
        with v have "val n_root = None" by simp
        with empty have "lookup n_root key' = None" by (simp add: lookup_childless)
        with l have "lookup r key' = None" by simp
        with gone \<open>root t = Some r\<close> show ?thesis by (simp add: Get_lookup)
      next
        case nonempty: False
        with Some \<open>root t = Some r\<close> False l show ?thesis
          by (simp add: Remove_def Get_lookup)
      qed
    qed
  qed
qed

section \<open>Replacer: the invariants hold in every reachable state\<close>

lemma set_push_node: "set (more_k_list_push_node heap xs a) = insert a (set xs)"
proof -
  have "set (takeWhile P xs @ a # dropWhile P xs) = insert a (set (takeWhile P xs @ dropWhile P xs))" for P
    by (simp del: takeWhile_dropWhile_id)
  then show ?thesis
    by (simp add: more_k_list_push_node_def Let_def)
qed

lemma add_timestamp_fields [simp]:
  "is_evictable (add_timestamp ts n) = is_evictable n"
  "fid (add_timestamp ts n) = fid n"
  "node_k (add_timestamp ts n) = node_k n"
  by (simp_all add: add_timestamp_def Let_def)

lemma add_timestamp_below:
  "length (history n) < node_k n \<Longrightarrow> history (add_timestamp ts n) = history n @ [ts]"
  by (simp add: add_timestamp_def Let_def)

lemma add_timestamp_full:
  "node_k n \<le> length (history n) \<Longrightarrow> history (add_timestamp ts n) = tl (history n @ [ts])"
  by (simp add: add_timestamp_def Let_def)

lemma add_timestamp_count_below:
  "get_access_count n < node_k n \<Longrightarrow> get_access_count (add_timestamp ts n) = Suc (get_access_count n)"
  by (simp add: get_access_count_def add_timestamp_below)

lemma add_timestamp_count_full:
  "node_k n \<le> get_access_count n \<Longrightarrow> get_access_count (add_timestamp ts n) = get_access_count n"
  by (simp add: get_access_count_def add_timestamp_full)

lemma add_timestamp_nonempty:
  "1 \<le> node_k n \<Longrightarrow> history (add_timestamp ts n) \<noteq> []"
  by (cases "history n") (auto simp: add_timestamp_def Let_def)

lemma inv_init: "2 \<le> k \<Longrightarrow> replacer_inv (LRUKReplacer_init n k ev)"
  by (simp add: replacer_inv_def LRUKReplacer_init_def tracked_def)

lemma inv_RecordAccess_new:
  assumes inv: "replacer_inv r" and ok: "RecordAccess f r = Inr r'" and new: "node_store r f = None"
  shows "replacer_inv r'"
proof -
  let ?a = "length (nodes r)"
  let ?n = "add_timestamp (current_timestamp r + 1)
              \<lparr>history = [], node_k = repl_k r, fid = f, is_evictable = init_evictable r\<rparr>"
  have r': "r' = r\<lparr>current_timestamp := current_timestamp r + 1, nodes := nodes r @ [?n],
                   node_store := (node_store r)(f \<mapsto> ?a),
                   curr_size := curr_size r + 1, less_k_list := ?a # less_k_list r\<rparr>"
    using ok new by (simp add: RecordAccess_def Let_def split: if_splits)
  have k: "2 \<le> repl_k r" using inv by (simp add: replacer_inv_def)
  have st: "\<And>g b. node_store r g = Some b \<Longrightarrow>
         b < length (nodes r) \<and> fid (nodes r ! b) = g \<and> node_k (nodes r ! b) = repl_k r \<and>
         history (nodes r ! b) \<noteq> []"
    using inv by (simp add: replacer_inv_def)
  have hn: "history ?n = [current_timestamp r + 1]"
    using k by (simp add: add_timestamp_def Let_def)
  have tr: "tracked r' b \<longleftrightarrow> b = ?a \<or> tracked r b" for b
    using st new by (auto simp: r' tracked_def nth_append)
  have nth: "b < ?a \<Longrightarrow> nodes r' ! b = nodes r ! b" for b
    by (simp add: r' nth_append)
  have trlt: "tracked r b \<Longrightarrow> b < ?a" for b by (simp add: tracked_def)
  have na: "nodes r' ! ?a = ?n" by (simp add: r')
  have c1: "2 \<le> repl_k r'" using k by (simp add: r')
  have c2: "finite (dom (node_store r'))" using inv by (simp add: r' replacer_inv_def)
  have c3: "\<forall>g b. node_store r' g = Some b \<longrightarrow>
         b < length (nodes r') \<and> fid (nodes r' ! b) = g \<and> node_k (nodes r' ! b) = repl_k r' \<and>
         history (nodes r' ! b) \<noteq> []"
  proof (intro allI impI)
    fix g b assume gb: "node_store r' g = Some b"
    show "b < length (nodes r') \<and> fid (nodes r' ! b) = g \<and> node_k (nodes r' ! b) = repl_k r' \<and>
         history (nodes r' ! b) \<noteq> []"
    proof (cases "g = f")
      case True
      with gb have "b = ?a" by (simp add: r')
      then show ?thesis using True hn na by (simp add: r')
    next
      case False
      with gb have "node_store r g = Some b" by (simp add: r')
      from st [OF this] show ?thesis by (simp add: r' nth_append)
    qed
  qed
  have c4: "\<forall>b. b \<in> set (less_k_list r') \<longleftrightarrow>
         tracked r' b \<and> get_access_count (nodes r' ! b) < repl_k r'"
  proof
    fix b
    show "b \<in> set (less_k_list r') \<longleftrightarrow>
         tracked r' b \<and> get_access_count (nodes r' ! b) < repl_k r'"
    proof (cases "b = ?a")
      case True
      then show ?thesis using k hn by (simp add: tr na get_access_count_def) (simp add: r')
    next
      case False
      have "b \<in> set (less_k_list r) \<longleftrightarrow> tracked r b \<and> get_access_count (nodes r ! b) < repl_k r"
        using inv by (simp add: replacer_inv_def)
      then show ?thesis using False trlt [of b] nth [of b] by (auto simp: tr) (auto simp: r')
    qed
  qed
  have c5: "\<forall>b. b \<in> set (more_k_list r') \<longleftrightarrow>
         tracked r' b \<and> repl_k r' \<le> get_access_count (nodes r' ! b)"
  proof
    fix b
    show "b \<in> set (more_k_list r') \<longleftrightarrow>
         tracked r' b \<and> repl_k r' \<le> get_access_count (nodes r' ! b)"
    proof (cases "b = ?a")
      case True
      have "?a \<notin> set (more_k_list r)" using inv by (simp add: replacer_inv_def tracked_def)
      then show ?thesis using True k hn by (simp add: tr na get_access_count_def) (simp add: r')
    next
      case False
      have "b \<in> set (more_k_list r) \<longleftrightarrow> tracked r b \<and> repl_k r \<le> get_access_count (nodes r ! b)"
        using inv by (simp add: replacer_inv_def)
      then show ?thesis using False trlt [of b] nth [of b] by (auto simp: tr) (auto simp: r')
    qed
  qed
  show ?thesis unfolding replacer_inv_def using c1 c2 c3 c4 c5 by blast
qed

lemma inv_RecordAccess_old:
  assumes inv: "replacer_inv r" and ok: "RecordAccess f r = Inr r'" and old: "node_store r f = Some a"
  shows "replacer_inv r'"
proof -
  let ?n = "nodes r ! a"
  let ?n' = "add_timestamp (current_timestamp r + 1) ?n"
  let ?heap = "(nodes r)[a := ?n']"
  have k: "2 \<le> repl_k r" using inv by (simp add: replacer_inv_def)
  have st: "\<And>g b. node_store r g = Some b \<Longrightarrow>
         b < length (nodes r) \<and> fid (nodes r ! b) = g \<and> node_k (nodes r ! b) = repl_k r \<and>
         history (nodes r ! b) \<noteq> []"
    using inv by (simp add: replacer_inv_def)
  have less: "\<And>b. b \<in> set (less_k_list r) \<longleftrightarrow>
         tracked r b \<and> get_access_count (nodes r ! b) < repl_k r"
    using inv by (simp add: replacer_inv_def)
  have more: "\<And>b. b \<in> set (more_k_list r) \<longleftrightarrow>
         tracked r b \<and> repl_k r \<le> get_access_count (nodes r ! b)"
    using inv by (simp add: replacer_inv_def)
  from st [OF old] have a: "a < length (nodes r)" "fid ?n = f" "node_k ?n = repl_k r"
    by simp_all
  have tra: "tracked r a" using a old by (simp add: tracked_def)
  have fields: "nodes r' = ?heap" "node_store r' = node_store r" "repl_k r' = repl_k r"
    using ok old by (auto simp: RecordAccess_def Let_def split: if_splits)
  have cnt': "get_access_count ?n' =
     (if get_access_count ?n < repl_k r then Suc (get_access_count ?n) else get_access_count ?n)"
    using a by (simp add: add_timestamp_count_below add_timestamp_count_full)
  have heap_a: "?heap ! a = ?n'" using a by simp
  have less': "set (less_k_list r') =
     (if get_access_count ?n' < repl_k r then insert a (set (less_k_list r) - {a})
      else set (less_k_list r) - {a})"
    using ok old less [of a] tra cnt' heap_a
    by (auto simp: RecordAccess_def Let_def split: if_splits)
  have more': "set (more_k_list r') =
     (if repl_k r \<le> get_access_count ?n' then insert a (set (more_k_list r) - {a})
      else set (more_k_list r) - {a})"
    using ok old more [of a] tra cnt' heap_a
    by (auto simp: RecordAccess_def Let_def set_push_node split: if_splits)
  have nth: "b \<noteq> a \<Longrightarrow> nodes r' ! b = nodes r ! b" for b
    by (simp add: fields)
  have na: "nodes r' ! a = ?n'" using a by (simp add: fields)
  have tr: "tracked r' b \<longleftrightarrow> tracked r b" for b
    using a by (cases "b = a") (simp_all add: tracked_def fields)
  have c3: "\<forall>g b. node_store r' g = Some b \<longrightarrow>
         b < length (nodes r') \<and> fid (nodes r' ! b) = g \<and> node_k (nodes r' ! b) = repl_k r' \<and>
         history (nodes r' ! b) \<noteq> []"
  proof (intro allI impI)
    fix g b assume "node_store r' g = Some b"
    then have gb: "node_store r g = Some b" by (simp add: fields)
    show "b < length (nodes r') \<and> fid (nodes r' ! b) = g \<and> node_k (nodes r' ! b) = repl_k r' \<and>
         history (nodes r' ! b) \<noteq> []"
    proof (cases "b = a")
      case True
      have "history ?n' \<noteq> []" using a k by (intro add_timestamp_nonempty) simp
      with st [OF gb] True a show ?thesis by (simp add: fields)
    next
      case False
      with st [OF gb] show ?thesis by (simp add: fields)
    qed
  qed
  have c4: "\<forall>b. b \<in> set (less_k_list r') \<longleftrightarrow>
         tracked r' b \<and> get_access_count (nodes r' ! b) < repl_k r'"
  proof
    fix b
    show "b \<in> set (less_k_list r') \<longleftrightarrow>
         tracked r' b \<and> get_access_count (nodes r' ! b) < repl_k r'"
    proof (cases "b = a")
      case True
      then show ?thesis using tra a(1) by (simp add: less' tr fields)
    next
      case False
      then show ?thesis using less [of b] by (simp add: less' tr nth fields)
    qed
  qed
  have c5: "\<forall>b. b \<in> set (more_k_list r') \<longleftrightarrow>
         tracked r' b \<and> repl_k r' \<le> get_access_count (nodes r' ! b)"
  proof
    fix b
    show "b \<in> set (more_k_list r') \<longleftrightarrow>
         tracked r' b \<and> repl_k r' \<le> get_access_count (nodes r' ! b)"
    proof (cases "b = a")
      case True
      then show ?thesis using tra a(1) by (simp add: more' tr fields)
    next
      case False
      then show ?thesis using more [of b] by (simp add: more' tr nth fields)
    qed
  qed
  have "finite (dom (node_store r'))" using inv by (simp add: fields replacer_inv_def)
  then show ?thesis unfolding replacer_inv_def using k c3 c4 c5 by (simp add: fields)
qed

lemma inv_RecordAccess:
  "replacer_inv r \<Longrightarrow> RecordAccess f r = Inr r' \<Longrightarrow> replacer_inv r'"
  by (cases "node_store r f") (auto intro: inv_RecordAccess_new inv_RecordAccess_old)

lemma inv_SetEvictable:
  assumes inv: "replacer_inv r" and ok: "SetEvictable f b r = Inr r'"
  shows "replacer_inv r'"
proof (cases "r' = r")
  case True
  with inv show ?thesis by simp
next
  case False
  then obtain a where old: "node_store r f = Some a"
    and r': "r' = r\<lparr>nodes := (nodes r)[a := (nodes r ! a)\<lparr>is_evictable := b\<rparr>],
                     curr_size := (if b then curr_size r + 1 else dec_size (curr_size r))\<rparr>"
    using ok by (auto simp: SetEvictable_def split: if_splits option.splits)
  have a: "a < length (nodes r)" using inv old by (auto simp: replacer_inv_def)
  have nth: "nodes r' ! c = (if c = a then (nodes r ! a)\<lparr>is_evictable := b\<rparr> else nodes r ! c)" for c
    using a by (simp add: r' nth_list_update)
  have same: "fid (nodes r' ! c) = fid (nodes r ! c)" "history (nodes r' ! c) = history (nodes r ! c)"
    "node_k (nodes r' ! c) = node_k (nodes r ! c)" for c
    by (simp_all add: nth)
  have tr: "tracked r' c \<longleftrightarrow> tracked r c" for c
    by (simp add: tracked_def same) (simp add: r')
  have other: "node_store r' = node_store r" "repl_k r' = repl_k r" "less_k_list r' = less_k_list r"
    "more_k_list r' = more_k_list r" "length (nodes r') = length (nodes r)"
    by (simp_all add: r')
  show ?thesis
    using inv unfolding replacer_inv_def get_access_count_def tr same other by simp
qed

lemma inv_drop:
  assumes inv: "replacer_inv r" and tra: "tracked r a"
    and nodes: "nodes r' = nodes r"
    and store: "node_store r' = (node_store r)(fid (nodes r ! a) := None)"
    and k: "repl_k r' = repl_k r"
    and less': "set (less_k_list r') = set (less_k_list r) - {a}"
    and more': "set (more_k_list r') = set (more_k_list r) - {a}"
  shows "replacer_inv r'"
proof -
  have st: "\<And>g b. node_store r g = Some b \<Longrightarrow>
         b < length (nodes r) \<and> fid (nodes r ! b) = g \<and> node_k (nodes r ! b) = repl_k r \<and>
         history (nodes r ! b) \<noteq> []"
    using inv by (simp add: replacer_inv_def)
  have tr: "tracked r' b \<longleftrightarrow> tracked r b \<and> b \<noteq> a" for b
    using tra by (auto simp: tracked_def nodes store)
  have c3: "\<forall>g b. node_store r' g = Some b \<longrightarrow>
         b < length (nodes r') \<and> fid (nodes r' ! b) = g \<and> node_k (nodes r' ! b) = repl_k r' \<and>
         history (nodes r' ! b) \<noteq> []"
  proof (intro allI impI)
    fix g b assume "node_store r' g = Some b"
    then have "node_store r g = Some b" by (simp add: store split: if_splits)
    from st [OF this] show "b < length (nodes r') \<and> fid (nodes r' ! b) = g \<and>
         node_k (nodes r' ! b) = repl_k r' \<and> history (nodes r' ! b) \<noteq> []"
      by (simp add: nodes k)
  qed
  have c4: "\<forall>b. b \<in> set (less_k_list r') \<longleftrightarrow>
         tracked r' b \<and> get_access_count (nodes r' ! b) < repl_k r'"
    using inv by (auto simp: less' tr nodes k replacer_inv_def)
  have c5: "\<forall>b. b \<in> set (more_k_list r') \<longleftrightarrow>
         tracked r' b \<and> repl_k r' \<le> get_access_count (nodes r' ! b)"
    using inv by (auto simp: more' tr nodes k replacer_inv_def)
  have "finite (dom (node_store r'))" "2 \<le> repl_k r'"
    using inv by (simp_all add: store k replacer_inv_def)
  then show ?thesis unfolding replacer_inv_def using c3 c4 c5 by blast
qed

lemma find_evictable_Some:
  "find_evictable heap xs = Some a \<Longrightarrow> a \<in> set xs \<and> is_evictable (heap ! a)"
proof -
  assume "find_evictable heap xs = Some a"
  then obtain i where i: "i < length (rev xs)" "is_evictable (heap ! (rev xs ! i))" "a = rev xs ! i"
    by (auto simp: find_evictable_def find_Some_iff)
  from i(1) have "rev xs ! i \<in> set (rev xs)" by (rule nth_mem)
  with i show ?thesis by simp
qed

lemma find_evictable_None:
  "find_evictable heap xs = None \<longleftrightarrow> (\<forall>a \<in> set xs. \<not> is_evictable (heap ! a))"
  by (auto simp: find_evictable_def find_None_iff)

lemma Evict_cases:
  assumes "Evict r = Some (f, r')"
  obtains a where "curr_size r \<noteq> 0" "find_evictable (nodes r) (less_k_list r) = Some a"
      "(f, r') = evict_node r a True"
  | a where "curr_size r \<noteq> 0" "find_evictable (nodes r) (less_k_list r) = None"
      "find_evictable (nodes r) (more_k_list r) = Some a" "(f, r') = evict_node r a False"
  using assms by (auto simp: Evict_def split: if_splits option.splits)

lemma inv_Evict:
  assumes inv: "replacer_inv r" and ev: "Evict r = Some (f, r')"
  shows "replacer_inv r'"
proof -
  have less: "\<And>b. b \<in> set (less_k_list r) \<longleftrightarrow>
         tracked r b \<and> get_access_count (nodes r ! b) < repl_k r"
    using inv by (simp add: replacer_inv_def)
  have more: "\<And>b. b \<in> set (more_k_list r) \<longleftrightarrow>
         tracked r b \<and> repl_k r \<le> get_access_count (nodes r ! b)"
    using inv by (simp add: replacer_inv_def)
  from ev show ?thesis
  proof (cases rule: Evict_cases)
    case (1 a)
    from find_evictable_Some [OF 1(2)] have a: "a \<in> set (less_k_list r)" by simp
    with less [of a] more [of a] have "tracked r a" "a \<notin> set (more_k_list r)" by auto
    with inv 1(3) show ?thesis
      by (intro inv_drop [of r a r']) (auto simp: evict_node_def Let_def)
  next
    case (2 a)
    from find_evictable_Some [OF 2(3)] have a: "a \<in> set (more_k_list r)" by simp
    with less [of a] more [of a] have "tracked r a" "a \<notin> set (less_k_list r)" by auto
    with inv 2(4) show ?thesis
      by (intro inv_drop [of r a r']) (auto simp: evict_node_def Let_def)
  qed
qed

lemma inv_Remove:
  assumes inv: "replacer_inv r" and ok: "Remove_frame f r = Inr r'"
  shows "replacer_inv r'"
proof (cases "r' = r")
  case True
  with inv show ?thesis by simp
next
  case False
  then obtain a where old: "node_store r f = Some a"
    and r': "r' = r\<lparr>node_store := (node_store r)(f := None),
                  less_k_list := (if get_access_count (nodes r ! a) < repl_k r
                                  then removeAll a (less_k_list r) else less_k_list r),
                  more_k_list := (if get_access_count (nodes r ! a) < repl_k r
                                  then more_k_list r else removeAll a (more_k_list r)),
                  curr_size := dec_size (curr_size r)\<rparr>"
    using ok by (auto simp: Remove_frame_def Let_def split: if_splits option.splits)
  have fa: "a < length (nodes r)" "fid (nodes r ! a) = f"
    using inv old by (auto simp: replacer_inv_def)
  then have tra: "tracked r a" using old by (simp add: tracked_def)
  have less: "a \<in> set (less_k_list r) \<longleftrightarrow> get_access_count (nodes r ! a) < repl_k r"
    and more: "a \<in> set (more_k_list r) \<longleftrightarrow> repl_k r \<le> get_access_count (nodes r ! a)"
    using inv tra by (simp_all add: replacer_inv_def)
  show ?thesis
    using inv tra fa less more by (intro inv_drop [of r a r']) (auto simp: r')
qed

lemma inv_step: "replacer_inv r \<Longrightarrow> step op r = Inr r' \<Longrightarrow> replacer_inv r'"
  by (cases op)
     (auto intro: inv_RecordAccess inv_SetEvictable inv_Evict inv_Remove split: option.splits)

lemma inv_run: "replacer_inv r \<Longrightarrow> run ops r = Inr r' \<Longrightarrow> replacer_inv r'"
proof (induction ops arbitrary: r)
  case Nil
  then show ?case by simp
next
  case (Cons op ops)
  then show ?case by (auto split: sum.splits dest: inv_step)
qed

lemma finite_evictable_frames: "replacer_inv r \<Longrightarrow> finite (evictable_frames r)"
proof -
  assume "replacer_inv r"
  then have "finite (dom (node_store r))" by (simp add: replacer_inv_def)
  moreover have "evictable_frames r \<subseteq> dom (node_store r)"
    by (auto simp: evictable_frames_def)
  ultimately show ?thesis by (rule rev_finite_subset)
qed

lemma size_inv_insert:
  assumes "replacer_inv r" "size_inv r" "f \<notin> evictable_frames r"
    "evictable_frames r' = insert f (evictable_frames r)" "curr_size r' = curr_size r + 1"
    "init_evictable r' = init_evictable r"
  shows "size_inv r'"
  using assms finite_evictable_frames [of r] by (simp add: size_inv_def evictable_count_def)

lemma size_inv_delete:
  assumes "replacer_inv r" "size_inv r" "f \<in> evictable_frames r"
    "evictable_frames r' = evictable_frames r - {f}" "curr_size r' = dec_size (curr_size r)"
    "init_evictable r' = init_evictable r"
  shows "size_inv r'"
proof -
  have fin: "finite (evictable_frames r)" using assms(1) by (rule finite_evictable_frames)
  with assms(3) have pos: "0 < evictable_count r"
    by (auto simp: evictable_count_def card_gt_0_iff)
  with assms(2) have "curr_size r \<noteq> 0" by (simp add: size_inv_def)
  then have "curr_size r' = curr_size r - 1" using assms(5) by (simp add: dec_size_def)
  moreover have "evictable_count r' = evictable_count r - 1"
    using fin assms(3,4) by (simp add: evictable_count_def)
  ultimately show ?thesis using assms(2,6) pos by (auto simp: size_inv_def)
qed

lemma size_inv_fresh:
  assumes "size_inv r" "evictable_frames r' = evictable_frames r"
    "curr_size r' = curr_size r + 1" "\<not> init_evictable r" "init_evictable r' = init_evictable r"
  shows "size_inv r'"
  using assms by (simp add: size_inv_def evictable_count_def)

lemma size_inv_same:
  assumes "size_inv r" "evictable_frames r' = evictable_frames r"
    "curr_size r' = curr_size r" "init_evictable r' = init_evictable r"
  shows "size_inv r'"
  using assms by (simp add: size_inv_def evictable_count_def)

lemma store_facts:
  "replacer_inv r \<Longrightarrow> node_store r g = Some b \<Longrightarrow> b < length (nodes r) \<and> fid (nodes r ! b) = g"
  by (simp add: replacer_inv_def)

lemma size_RecordAccess:
  assumes inv: "replacer_inv r" and sz: "size_inv r" and ok: "RecordAccess f r = Inr r'"
  shows "size_inv r'"
proof (cases "node_store r f")
  case None
  let ?a = "length (nodes r)"
  let ?n = "add_timestamp (current_timestamp r + 1)
              \<lparr>history = [], node_k = repl_k r, fid = f, is_evictable = init_evictable r\<rparr>"
  have r': "r' = r\<lparr>current_timestamp := current_timestamp r + 1, nodes := nodes r @ [?n],
                   node_store := (node_store r)(f \<mapsto> ?a),
                   curr_size := curr_size r + 1, less_k_list := ?a # less_k_list r\<rparr>"
    using ok None by (simp add: RecordAccess_def Let_def split: if_splits)
  have notin: "f \<notin> evictable_frames r" using None by (simp add: evictable_frames_def)
  have ev: "evictable_frames r' =
      (if init_evictable r then insert f (evictable_frames r) else evictable_frames r)"
    using store_facts [OF inv] None
    by (auto simp: evictable_frames_def r' nth_append)
  show ?thesis
  proof (cases "init_evictable r")
    case True
    with ev inv sz notin show ?thesis by (intro size_inv_insert [of r f r']) (simp_all add: r')
  next
    case False
    with ev sz show ?thesis by (intro size_inv_fresh [of r r']) (simp_all add: r')
  qed
next
  case (Some a)
  have a: "a < length (nodes r)" using store_facts [OF inv Some] by simp
  have fields: "nodes r' = (nodes r)[a := add_timestamp (current_timestamp r + 1) (nodes r ! a)]"
    "node_store r' = node_store r" "curr_size r' = curr_size r" "init_evictable r' = init_evictable r"
    using ok Some by (auto simp: RecordAccess_def Let_def split: if_splits)
  have "is_evictable (nodes r' ! b) = is_evictable (nodes r ! b)" for b
    using a by (cases "b = a") (simp_all add: fields)
  then have "evictable_frames r' = evictable_frames r"
    by (simp add: evictable_frames_def fields)
  with sz fields show ?thesis by (intro size_inv_same [of r r']) simp_all
qed

lemma size_SetEvictable:
  assumes inv: "replacer_inv r" and sz: "size_inv r" and ok: "SetEvictable f b r = Inr r'"
  shows "size_inv r'"
proof (cases "r' = r")
  case True
  with sz show ?thesis by simp
next
  case False
  then obtain a where old: "node_store r f = Some a"
    and flag: "is_evictable (nodes r ! a) \<noteq> b"
    and r': "r' = r\<lparr>nodes := (nodes r)[a := (nodes r ! a)\<lparr>is_evictable := b\<rparr>],
                     curr_size := (if b then curr_size r + 1 else dec_size (curr_size r))\<rparr>"
    using ok by (auto simp: SetEvictable_def split: if_splits option.splits)
  have a: "a < length (nodes r)" using store_facts [OF inv old] by simp
  have inj: "node_store r g = Some a \<Longrightarrow> g = f" for g
    using store_facts [OF inv, of g a] store_facts [OF inv old] by simp
  have store': "node_store r' = node_store r" by (simp add: r')
  have flag': "is_evictable (nodes r' ! c) = (if c = a then b else is_evictable (nodes r ! c))" for c
    using a by (simp add: r' nth_list_update)
  have ev_f: "f \<in> evictable_frames r' \<longleftrightarrow> b"
    using old by (simp add: evictable_frames_def store' flag')
  have ev_other: "g \<in> evictable_frames r' \<longleftrightarrow> g \<in> evictable_frames r" if "g \<noteq> f" for g
  proof -
    from that inj have "node_store r g \<noteq> Some a" by blast
    then have "(\<exists>c. node_store r g = Some c \<and> (if c = a then b else is_evictable (nodes r ! c)))
       \<longleftrightarrow> (\<exists>c. node_store r g = Some c \<and> is_evictable (nodes r ! c))"
      by metis
    then show ?thesis by (simp add: evictable_frames_def store' flag')
  qed
  have fl: "init_evictable r' = init_evictable r" by (simp add: r')
  show ?thesis
  proof (cases b)
    case True
    with flag old have notin: "f \<notin> evictable_frames r" by (simp add: evictable_frames_def)
    have eq: "evictable_frames r' = insert f (evictable_frames r)"
    proof (rule set_eqI)
      fix g show "g \<in> evictable_frames r' \<longleftrightarrow> g \<in> insert f (evictable_frames r)"
        using True by (cases "g = f") (simp_all add: ev_f ev_other)
    qed
    have "curr_size r' = curr_size r + 1" using True by (simp add: r')
    with inv sz notin eq show ?thesis using fl by (rule size_inv_insert)
  next
    case False
    with flag old have isin: "f \<in> evictable_frames r" by (simp add: evictable_frames_def)
    have eq: "evictable_frames r' = evictable_frames r - {f}"
    proof (rule set_eqI)
      fix g show "g \<in> evictable_frames r' \<longleftrightarrow> g \<in> evictable_frames r - {f}"
        using False by (cases "g = f") (simp_all add: ev_f ev_other)
    qed
    have "curr_size r' = dec_size (curr_size r)" using False by (simp add: r')
    with inv sz isin eq show ?thesis using fl by (rule size_inv_delete)
  qed
qed

lemma size_drop:
  assumes inv: "replacer_inv r" and sz: "size_inv r" and tra: "tracked r a"
    and evb: "is_evictable (nodes r ! a)"
    and nodes: "nodes r' = nodes r"
    and store: "node_store r' = (node_store r)(fid (nodes r ! a) := None)"
    and size: "curr_size r' = dec_size (curr_size r)"
    and flag: "init_evictable r' = init_evictable r"
  shows "size_inv r'"
proof -
  let ?f = "fid (nodes r ! a)"
  have "?f \<in> evictable_frames r" using tra evb by (simp add: evictable_frames_def tracked_def)
  moreover have "evictable_frames r' = evictable_frames r - {?f}"
    by (auto simp: evictable_frames_def nodes store)
  ultimately show ?thesis using inv sz size flag by (intro size_inv_delete [of r ?f r'])
qed

lemma size_Evict:
  assumes inv: "replacer_inv r" and sz: "size_inv r" and ev: "Evict r = Some (f, r')"
  shows "size_inv r'"
proof -
  have less: "\<And>b. b \<in> set (less_k_list r) \<Longrightarrow> tracked r b"
    and more: "\<And>b. b \<in> set (more_k_list r) \<Longrightarrow> tracked r b"
    using inv by (simp_all add: replacer_inv_def)
  from ev show ?thesis
  proof (cases rule: Evict_cases)
    case (1 a)
    from find_evictable_Some [OF 1(2)] less [of a] inv sz 1(3) show ?thesis
      by (intro size_drop [of r a r']) (auto simp: evict_node_def Let_def)
  next
    case (2 a)
    from find_evictable_Some [OF 2(3)] more [of a] inv sz 2(4) show ?thesis
      by (intro size_drop [of r a r']) (auto simp: evict_node_def Let_def)
  qed
qed

lemma size_Remove:
  assumes inv: "replacer_inv r" and sz: "size_inv r" and ok: "Remove_frame f r = Inr r'"
  shows "size_inv r'"
proof (cases "r' = r")
  case True
  with sz show ?thesis by simp
next
  case False
  then obtain a where old: "node_store r f = Some a" and evb: "is_evictable (nodes r ! a)"
    and r': "nodes r' = nodes r" "node_store r' = (node_store r)(f := None)"
      "curr_size r' = dec_size (curr_size r)" "init_evictable r' = init_evictable r"
    using ok by (auto simp: Remove_frame_def Let_def split: if_splits option.splits)
  from store_facts [OF inv old] old have "tracked r a" "fid (nodes r ! a) = f"
    by (simp_all add: tracked_def)
  with inv sz evb r' show ?thesis by (intro size_drop [of r a r']) simp_all
qed

lemma ok_init: "2 \<le> k \<Longrightarrow> replacer_ok (LRUKReplacer_init n k ev)"
  by (simp add: replacer_ok_def inv_init)
     (simp add: size_inv_def evictable_count_def evictable_frames_def LRUKReplacer_init_def)

lemma ok_step: "replacer_ok r \<Longrightarrow> step op r = Inr r' \<Longrightarrow> replacer_ok r'"
  unfolding replacer_ok_def
  by (cases op)
     (auto intro: inv_RecordAccess inv_SetEvictable inv_Evict inv_Remove
        size_RecordAccess size_SetEvictable size_Evict size_Remove split: option.splits)

lemma ok_run: "replacer_ok r \<Longrightarrow> run ops r = Inr r' \<Longrightarrow> replacer_ok r'"
proof (induction ops arbitrary: r)
  case Nil
  then show ?case by simp
next
  case (Cons op ops)
  then show ?case by (auto split: sum.splits dest: ok_step)
qed

section \<open>Replacer: more invariants and evaluation\<close>

lemma store_inv_init: "1 \<le> k \<Longrightarrow> store_inv (LRUKReplacer_init n k ev)"
  by (simp add: store_inv_def LRUKReplacer_init_def)

lemma store_inv_RecordAccess:
  assumes inv: "store_inv r" and ok: "RecordAccess f r = Inr r'"
  shows "store_inv r'"
proof -
  have k: "1 \<le> repl_k r" using inv by (simp add: store_inv_def)
  have st: "\<And>g b. node_store r g = Some b \<Longrightarrow>
         b < length (nodes r) \<and> node_k (nodes r ! b) = repl_k r \<and> history (nodes r ! b) \<noteq> []"
    using inv by (simp add: store_inv_def)
  show ?thesis
  proof (cases "node_store r f")
    case None
    let ?a = "length (nodes r)"
    let ?n = "add_timestamp (current_timestamp r + 1)
              \<lparr>history = [], node_k = repl_k r, fid = f, is_evictable = init_evictable r\<rparr>"
    have r': "nodes r' = nodes r @ [?n]" "node_store r' = (node_store r)(f \<mapsto> ?a)"
      "repl_k r' = repl_k r"
      using ok None by (auto simp: RecordAccess_def Let_def split: if_splits)
    have hn: "history ?n \<noteq> []" using k by (intro add_timestamp_nonempty) simp
    have "b < length (nodes r') \<and> node_k (nodes r' ! b) = repl_k r' \<and> history (nodes r' ! b) \<noteq> []"
      if gb: "node_store r' g = Some b" for g b
    proof (cases "g = f")
      case True
      with gb have "b = ?a" by (simp add: r')
      then show ?thesis using hn by (simp add: r')
    next
      case False
      with gb have "node_store r g = Some b" by (simp add: r')
      from st [OF this] show ?thesis by (simp add: r' nth_append)
    qed
    then show ?thesis using k by (simp add: store_inv_def r'(3))
  next
    case (Some a)
    let ?n' = "add_timestamp (current_timestamp r + 1) (nodes r ! a)"
    have r': "nodes r' = (nodes r)[a := ?n']" "node_store r' = node_store r" "repl_k r' = repl_k r"
      using ok Some by (auto simp: RecordAccess_def Let_def split: if_splits)
    from st [OF Some] have a: "a < length (nodes r)" "node_k (nodes r ! a) = repl_k r" by simp_all
    have hn: "history ?n' \<noteq> []" using k a by (intro add_timestamp_nonempty) simp
    have "b < length (nodes r') \<and> node_k (nodes r' ! b) = repl_k r' \<and> history (nodes r' ! b) \<noteq> []"
      if gb: "node_store r' g = Some b" for g b
    proof -
      from gb have "node_store r g = Some b" by (simp add: r')
      from st [OF this] a hn show ?thesis by (cases "b = a") (simp_all add: r')
    qed
    then show ?thesis using k by (simp add: store_inv_def r'(3))
  qed
qed

lemma store_inv_SetEvictable:
  assumes inv: "store_inv r" and ok: "SetEvictable f b r = Inr r'"
  shows "store_inv r'"
proof (cases "r' = r")
  case True
  with inv show ?thesis by simp
next
  case False
  then obtain a where old: "node_store r f = Some a"
    and r': "nodes r' = (nodes r)[a := (nodes r ! a)\<lparr>is_evictable := b\<rparr>]"
       "node_store r' = node_store r" "repl_k r' = repl_k r"
    using ok by (auto simp: SetEvictable_def split: if_splits option.splits)
  have a: "a < length (nodes r)" using inv old by (auto simp: store_inv_def)
  have same: "history (nodes r' ! c) = history (nodes r ! c)"
    "node_k (nodes r' ! c) = node_k (nodes r ! c)" for c
    using a by (cases "c = a"; simp add: r')+
  have "length (nodes r') = length (nodes r)" by (simp add: r')
  then show ?thesis using inv unfolding store_inv_def same r'(2,3) by simp
qed

lemma store_inv_erase:
  assumes "store_inv r" "nodes r' = nodes r" "node_store r' = (node_store r)(f := None)"
    "repl_k r' = repl_k r"
  shows "store_inv r'"
  using assms by (simp add: store_inv_def)

lemma store_inv_Evict: "store_inv r \<Longrightarrow> Evict r = Some (f, r') \<Longrightarrow> store_inv r'"
  by (erule Evict_cases) (auto simp: evict_node_def Let_def intro: store_inv_erase)

lemma store_inv_Remove: "store_inv r \<Longrightarrow> Remove_frame f r = Inr r' \<Longrightarrow> store_inv r'"
  by (cases "r' = r")
     (auto simp: Remove_frame_def Let_def split: if_splits option.splits
        intro!: store_inv_erase [of r _ f])

lemma store_inv_step: "store_inv r \<Longrightarrow> step op r = Inr r' \<Longrightarrow> store_inv r'"
  by (cases op)
     (auto intro: store_inv_RecordAccess store_inv_SetEvictable store_inv_Evict store_inv_Remove
        split: option.splits)

lemma store_inv_run: "store_inv r \<Longrightarrow> run ops r = Inr r' \<Longrightarrow> store_inv r'"
proof (induction ops arbitrary: r)
  case Nil
  then show ?case by simp
next
  case (Cons op ops)
  then show ?case by (auto split: sum.splits dest: store_inv_step)
qed

lemma step_params:
  "step op r = Inr r' \<Longrightarrow>
   init_evictable r' = init_evictable r \<and> repl_k r' = repl_k r \<and> replacer_size r' = replacer_size r"
  by (cases op)
     (auto simp: RecordAccess_def SetEvictable_def Remove_frame_def Evict_def evict_node_def Let_def
        split: if_splits option.splits)

lemma run_params:
  "run ops r = Inr r' \<Longrightarrow>
   init_evictable r' = init_evictable r \<and> repl_k r' = repl_k r \<and> replacer_size r' = replacer_size r"
proof (induction ops arbitrary: r)
  case Nil
  then show ?case by simp
next
  case (Cons op ops)
  then show ?case by (auto split: sum.splits dest: step_params)
qed

lemmas replacer_simps = RecordAccess_def SetEvictable_def Remove_frame_def Evict_def
  evict_node_def find_evictable_def more_k_list_push_node_def add_timestamp_def
  get_access_count_def get_least_recent_timestamp_def dec_size_def LRUKReplacer_init_def
  Let_def

lemma frame_id_cast_small: "n < 2 ^ 31 \<Longrightarrow> frame_id_cast n = int n"
  by (simp add: frame_id_cast_def)

lemma evictable_frames_one_access: "evictable_frames (one_access_state ev) = (if ev then {0} else {})"
  by (auto simp: evictable_frames_def one_access_state_def split: if_splits)

lemma evictable_frames_stale: "evictable_frames stale_state = {1}"
  by (auto simp: evictable_frames_def stale_state_def split: if_splits)

section \<open>Replacer: the full-K list stays sorted\<close>

lemma sorted_by_oldest_Cons:
  "sorted_by_oldest heap (y # ys) \<longleftrightarrow>
     (\<forall>z \<in> set ys. get_least_recent_timestamp (heap ! z) \<le> get_least_recent_timestamp (heap ! y))
     \<and> sorted_by_oldest heap ys"
  by (simp add: sorted_by_oldest_def)

lemma push_node_Cons:
  "more_k_list_push_node heap (y # ys) x =
     (if get_least_recent_timestamp (heap ! y) < get_least_recent_timestamp (heap ! x)
      then x # y # ys else y # more_k_list_push_node heap ys x)"
  by (simp add: more_k_list_push_node_def Let_def)

lemma push_node_sorted:
  "sorted_by_oldest heap xs \<Longrightarrow> sorted_by_oldest heap (more_k_list_push_node heap xs x)"
proof (induction xs)
  case Nil
  then show ?case by (simp add: more_k_list_push_node_def sorted_by_oldest_def)
next
  case (Cons y ys)
  show ?case
  proof (cases "get_least_recent_timestamp (heap ! y) < get_least_recent_timestamp (heap ! x)")
    case True
    have "\<forall>z \<in> set (y # ys).
            get_least_recent_timestamp (heap ! z) \<le> get_least_recent_timestamp (heap ! x)"
      using Cons.prems True by (fastforce simp: sorted_by_oldest_Cons)
    with Cons.prems True show ?thesis
      by (simp only: push_node_Cons if_True sorted_by_oldest_Cons [of heap x] simp_thms)
  next
    case False
    from Cons have ih: "sorted_by_oldest heap (more_k_list_push_node heap ys x)"
      by (simp add: sorted_by_oldest_Cons)
    have "\<forall>z \<in> insert x (set ys).
            get_least_recent_timestamp (heap ! z) \<le> get_least_recent_timestamp (heap ! y)"
      using Cons.prems False by (simp add: sorted_by_oldest_Cons)
    with ih False show ?thesis
      by (simp add: push_node_Cons sorted_by_oldest_Cons set_push_node)
  qed
qed

lemma sorted_other_heap:
  assumes "sorted_by_oldest heap xs"
    and "\<And>c. c \<in> set xs \<Longrightarrow> history (heap' ! c) = history (heap ! c)"
  shows "sorted_by_oldest heap' xs"
  using assms
proof (induction xs)
  case Nil
  then show ?case by (simp add: sorted_by_oldest_def)
next
  case (Cons y ys)
  then show ?case
    by (simp add: sorted_by_oldest_Cons get_least_recent_timestamp_def)
qed

lemma sorted_removeAll_list:
  "sorted_by_oldest heap xs \<Longrightarrow> sorted_by_oldest heap (removeAll a xs)"
  by (induction xs) (auto simp: sorted_by_oldest_Cons)

lemma sorted_RecordAccess:
  assumes inv: "replacer_inv r" and so: "more_k_sorted r" and ok: "RecordAccess f r = Inr r'"
  shows "more_k_sorted r'"
proof (cases "node_store r f")
  case None
  then have r': "nodes r' = nodes r @ [add_timestamp (current_timestamp r + 1)
              \<lparr>history = [], node_k = repl_k r, fid = f, is_evictable = init_evictable r\<rparr>]"
     "more_k_list r' = more_k_list r"
    using ok by (auto simp: RecordAccess_def Let_def split: if_splits)
  have "c \<in> set (more_k_list r) \<Longrightarrow> c < length (nodes r)" for c
    using inv by (simp add: replacer_inv_def tracked_def)
  then have same: "c \<in> set (more_k_list r) \<Longrightarrow> history (nodes r' ! c) = history (nodes r ! c)" for c
    by (simp add: r' nth_append)
  from so have "sorted_by_oldest (nodes r) (more_k_list r)" by (simp add: more_k_sorted_def)
  then have "sorted_by_oldest (nodes r') (more_k_list r)" using same by (rule sorted_other_heap)
  then show ?thesis by (simp add: more_k_sorted_def r'(2))
next
  case (Some a)
  let ?heap = "(nodes r)[a := add_timestamp (current_timestamp r + 1) (nodes r ! a)]"
  have nodes': "nodes r' = ?heap"
    using ok Some by (auto simp: RecordAccess_def Let_def split: if_splits)
  have other: "c \<in> set (removeAll a (more_k_list r)) \<Longrightarrow> history (?heap ! c) = history (nodes r ! c)" for c
    by simp
  from so have "sorted_by_oldest (nodes r) (removeAll a (more_k_list r))"
    by (simp add: more_k_sorted_def sorted_removeAll_list)
  then have rest: "sorted_by_oldest ?heap (removeAll a (more_k_list r))"
    using other by (rule sorted_other_heap)
  have fa: "a < length (nodes r)" "fid (nodes r ! a) = f"
    using store_facts [OF inv Some] by simp_all
  then have tra: "tracked r a" using Some by (simp add: tracked_def)
  have more: "a \<in> set (more_k_list r) \<longleftrightarrow> repl_k r \<le> get_access_count (nodes r ! a)"
    using inv tra by (simp add: replacer_inv_def)
  show ?thesis
  proof (cases "get_access_count (nodes r ! a) < repl_k r")
    case True
    with more have notin: "removeAll a (more_k_list r) = more_k_list r" by simp
    show ?thesis
    proof (cases "get_access_count (?heap ! a) = repl_k r")
      case eq: True
      with True ok Some have "more_k_list r' = more_k_list_push_node ?heap (more_k_list r) a"
        by (auto simp: RecordAccess_def Let_def split: if_splits)
      with push_node_sorted [OF rest, of a] notin show ?thesis
        by (simp add: more_k_sorted_def nodes')
    next
      case neq: False
      with True ok Some have "more_k_list r' = more_k_list r"
        by (auto simp: RecordAccess_def Let_def split: if_splits)
      with rest notin show ?thesis by (simp add: more_k_sorted_def nodes')
    qed
  next
    case False
    with ok Some have "more_k_list r' = more_k_list_push_node ?heap (removeAll a (more_k_list r)) a"
      by (auto simp: RecordAccess_def Let_def split: if_splits)
    with push_node_sorted [OF rest, of a] show ?thesis
      by (simp add: more_k_sorted_def nodes')
  qed
qed

lemma sorted_SetEvictable:
  assumes inv: "replacer_inv r" and so: "more_k_sorted r" and ok: "SetEvictable f b r = Inr r'"
  shows "more_k_sorted r'"
proof (cases "r' = r")
  case True
  with so show ?thesis by simp
next
  case False
  then obtain a where old: "node_store r f = Some a"
    and r': "nodes r' = (nodes r)[a := (nodes r ! a)\<lparr>is_evictable := b\<rparr>]"
       "more_k_list r' = more_k_list r"
    using ok by (auto simp: SetEvictable_def split: if_splits option.splits)
  have a: "a < length (nodes r)" using store_facts [OF inv old] by simp
  have same: "c \<in> set (more_k_list r) \<Longrightarrow> history (nodes r' ! c) = history (nodes r ! c)" for c
    using a by (cases "c = a") (simp_all add: r')
  from so have "sorted_by_oldest (nodes r) (more_k_list r)" by (simp add: more_k_sorted_def)
  then have "sorted_by_oldest (nodes r') (more_k_list r)" using same by (rule sorted_other_heap)
  then show ?thesis by (simp add: more_k_sorted_def r'(2))
qed

lemma sorted_drop:
  assumes "more_k_sorted r" "nodes r' = nodes r"
    "more_k_list r' = (if keep then more_k_list r else removeAll a (more_k_list r))"
  shows "more_k_sorted r'"
  using assms by (simp add: more_k_sorted_def sorted_removeAll_list)

lemma sorted_Evict:
  assumes so: "more_k_sorted r" and ev: "Evict r = Some (f, r')"
  shows "more_k_sorted r'"
  using ev
proof (cases rule: Evict_cases)
  case (1 a)
  then have "nodes r' = nodes r" "more_k_list r' = (if True then more_k_list r else removeAll a (more_k_list r))"
    by (simp_all add: evict_node_def Let_def)
  with so show ?thesis by (rule sorted_drop)
next
  case (2 a)
  then have "nodes r' = nodes r" "more_k_list r' = (if False then more_k_list r else removeAll a (more_k_list r))"
    by (simp_all add: evict_node_def Let_def)
  with so show ?thesis by (rule sorted_drop)
qed

lemma sorted_Remove:
  assumes so: "more_k_sorted r" and ok: "Remove_frame f r = Inr r'"
  shows "more_k_sorted r'"
proof (cases "r' = r")
  case True
  with so show ?thesis by simp
next
  case False
  then obtain a where old: "node_store r f = Some a" and evb: "is_evictable (nodes r ! a)"
    and chk: "f < frame_id_cast (replacer_size r)"
    using ok by (auto simp: Remove_frame_def Let_def split: if_splits option.splits)
  with ok have "nodes r' = nodes r"
    "more_k_list r' = (if get_access_count (nodes r ! a) < repl_k r then more_k_list r
                       else removeAll a (more_k_list r))"
    by (auto simp: Remove_frame_def Let_def)
  with so show ?thesis by (rule sorted_drop)
qed

lemma sorted_step:
  "replacer_inv r \<Longrightarrow> more_k_sorted r \<Longrightarrow> step op r = Inr r' \<Longrightarrow> more_k_sorted r'"
proof (cases op)
  case (OpRecordAccess f)
  then show "replacer_inv r \<Longrightarrow> more_k_sorted r \<Longrightarrow> step op r = Inr r' \<Longrightarrow> more_k_sorted r'"
    by (simp add: sorted_RecordAccess)
next
  case (OpSetEvictable f b)
  then show "replacer_inv r \<Longrightarrow> more_k_sorted r \<Longrightarrow> step op r = Inr r' \<Longrightarrow> more_k_sorted r'"
    by (simp add: sorted_SetEvictable)
next
  case OpEvict
  then show "replacer_inv r \<Longrightarrow> more_k_sorted r \<Longrightarrow> step op r = Inr r' \<Longrightarrow> more_k_sorted r'"
    by (auto split: option.splits dest: sorted_Evict)
next
  case (OpRemove f)
  then show "replacer_inv r \<Longrightarrow> more_k_sorted r \<Longrightarrow> step op r = Inr r' \<Longrightarrow> more_k_sorted r'"
    by (simp add: sorted_Remove)
qed

lemma more_k_list_sorted:
  assumes "replacer_inv r" "more_k_sorted r" "run ops r = Inr r'"
  shows "more_k_sorted r'"
  using assms
proof (induction ops arbitrary: r)
  case Nil
  then show ?case by simp
next
  case (Cons op ops)
  from Cons.prems(3) obtain r1 where s: "step op r = Inr r1" and rest: "run ops r1 = Inr r'"
    by (auto split: sum.splits)
  have "replacer_inv r1" using Cons.prems(1) s by (rule inv_step)
  moreover have "more_k_sorted r1" using Cons.prems(1,2) s by (rule sorted_step)
  ultimately show ?case using rest by (rule Cons.IH)
qed

lemma reachable_more_k_list_sorted:
  assumes "2 \<le> k" "run ops (LRUKReplacer_init n k ev) = Inr r"
  shows "more_k_sorted r"
proof -
  have "more_k_sorted (LRUKReplacer_init n k ev)"
    by (simp add: more_k_sorted_def sorted_by_oldest_def LRUKReplacer_init_def)
  with inv_init [OF assms(1)] show ?thesis using assms(2) by (rule more_k_list_sorted)
qed

section \<open>Replacer: Size\<close>

text \<open>
  C1 (as amended). Take a replacer built with \<open>2 \<le> K\<close> and any sequence of
  \<open>RecordAccess\<close>, \<open>SetEvictable\<close>, \<open>Evict\<close> and \<open>Remove\<close> calls none of which aborts
  or throws. Then \<open>Size()\<close> is at least the number of tracked frames whose evictable
  flag is true, and it is exactly that number when the node constructor sets the flag
  to true. \<open>RecordAccess\<close> on a frame that is not tracked adds one to \<open>Size()\<close>: the
  fresh node counts at once, before any \<open>SetEvictable\<close>.
\<close>

theorem size_counts_evictable:
  assumes k: "2 \<le> k" and run: "run ops (LRUKReplacer_init n k ev) = Inr r"
  shows "evictable_count r \<le> Size r \<and>
         (ev \<longrightarrow> Size r = evictable_count r) \<and>
         (\<forall>f r'. node_store r f = None \<and> RecordAccess f r = Inr r' \<longrightarrow> Size r' = Size r + 1)"
proof -
  from ok_run [OF ok_init [OF k] run] have "size_inv r" by (simp add: replacer_ok_def)
  moreover from run_params [OF run] have "init_evictable r = ev"
    by (simp add: LRUKReplacer_init_def)
  moreover have "Size r' = Size r + 1" if "node_store r f = None" "RecordAccess f r = Inr r'" for f r'
    using that by (auto simp: RecordAccess_def Size_def Let_def split: if_splits)
  ultimately show ?thesis by (auto simp: size_inv_def Size_def)
qed

theorem size_counts_evictable_witness:
  "\<exists>r. run [OpRecordAccess 1, OpRecordAccess 2, OpSetEvictable 1 False, OpRecordAccess 1, OpEvict,
            OpRecordAccess 3]
         (LRUKReplacer_init 7 2 True) = Inr r \<and>
       Size r = 1 \<and> evictable_count r = 1 \<and> node_store r 2 = None \<and>
       (\<exists>r'. RecordAccess 2 r = Inr r' \<and> Size r' = 2)"
proof -
  obtain r where r: "run [OpRecordAccess 1, OpRecordAccess 2, OpSetEvictable 1 False,
        OpRecordAccess 1, OpEvict, OpRecordAccess 3] (LRUKReplacer_init 7 2 True) = Inr r"
    by (simp add: replacer_simps frame_id_cast_def)
  have sz: "Size r = 1" and st: "node_store r 2 = None"
    using r by (auto simp: replacer_simps frame_id_cast_def Size_def)
  obtain r' where r': "RecordAccess 2 r = Inr r'"
    using r by (auto simp: replacer_simps frame_id_cast_def)
  from size_counts_evictable [of 2 _ 7 True r, OF _ r] sz st r'
  show ?thesis using r by auto
qed

text \<open>
  C1 as stated fails. With the flag initially false, one \<open>RecordAccess(0)\<close> gives
  \<open>Size() = 1\<close> while no tracked node is evictable. With the flag initially true the
  fresh node counts toward \<open>Size()\<close> before any \<open>SetEvictable\<close> call. With \<open>K = 1\<close>
  (and the flag initially true) \<open>Remove\<close> takes the node out of \<open>more_k_list\<close> although
  \<open>RecordAccess\<close> has put it into \<open>less_k_list\<close>; the next \<open>Evict\<close> finds that stale
  node, returns frame 0, which is no longer tracked, and decrements the counter:
  \<open>Size() = 0\<close> while frame 1 is tracked and evictable.
\<close>

theorem size_counterexample:
  "run [OpRecordAccess 0] (LRUKReplacer_init 7 2 False) = Inr (one_access_state False) \<and>
   Size (one_access_state False) = 1 \<and> evictable_count (one_access_state False) = 0 \<and>
   run [OpRecordAccess 0] (LRUKReplacer_init 7 2 True) = Inr (one_access_state True) \<and>
   Size (one_access_state True) = 1 \<and>
   run [OpRecordAccess 0, OpRemove 0, OpRecordAccess 1, OpEvict] (LRUKReplacer_init 7 1 True)
     = Inr stale_state \<and>
   Size stale_state = 0 \<and> evictable_count stale_state = 1"
proof -
  have a: "run [OpRecordAccess 0] (LRUKReplacer_init 7 2 ev) = Inr (one_access_state ev)" for ev
    by (simp add: replacer_simps frame_id_cast_def one_access_state_def)
  have b: "run [OpRecordAccess 0, OpRemove 0, OpRecordAccess 1, OpEvict]
             (LRUKReplacer_init 7 1 True) = Inr stale_state"
    by (simp add: replacer_simps frame_id_cast_def stale_state_def fun_upd_twist)
  have c: "Size (one_access_state ev) = 1" for ev
    by (simp add: Size_def one_access_state_def)
  have d: "Size stale_state = 0" by (simp add: Size_def stale_state_def)
  show ?thesis
    using a b c d by (simp add: evictable_count_def evictable_frames_one_access evictable_frames_stale)
qed

section \<open>Replacer: the frame id check\<close>

text \<open>
  C5 (as amended). Take a replacer whose \<open>num_frames\<close> is below \<open>2^31\<close>, so that it
  fits the signed 32-bit frame id type the assertion casts it to. Every frame id
  \<open>\<ge> num_frames\<close> makes \<open>RecordAccess\<close>, \<open>SetEvictable\<close> and \<open>Remove\<close> fail their
  assertion, so that no state results. Every frame id below \<open>num_frames\<close>, the
  negative ones included, passes the check. \<open>RecordAccess\<close> then succeeds: for a frame
  that is not tracked it creates a node with that frame id, enters it in
  \<open>node_store_\<close> and at the front of \<open>less_k_list\<close> and adds one to \<open>Size()\<close>; for a
  tracked frame it leaves \<open>node_store_\<close> and \<open>Size()\<close> as they are. \<open>SetEvictable\<close> and
  \<open>Remove\<close> on a frame that is not tracked return with the state unchanged.
\<close>

theorem frame_id_check:
  assumes small: "replacer_size r < 2 ^ 31"
  shows "(int (replacer_size r) \<le> f \<longrightarrow>
            RecordAccess f r = Inl AssertionFailure \<and>
            SetEvictable f b r = Inl AssertionFailure \<and>
            Remove_frame f r = Inl AssertionFailure) \<and>
         (f < int (replacer_size r) \<longrightarrow>
            (\<exists>r'. RecordAccess f r = Inr r' \<and>
                  (case node_store r f of
                     None \<Rightarrow>
                       node_store r' = (node_store r)(f \<mapsto> length (nodes r)) \<and>
                       length (nodes r') = length (nodes r) + 1 \<and>
                       fid (nodes r' ! length (nodes r)) = f \<and>
                       less_k_list r' = length (nodes r) # less_k_list r \<and>
                       Size r' = Size r + 1
                   | Some a \<Rightarrow> node_store r' = node_store r \<and> Size r' = Size r)) \<and>
            (node_store r f = None \<longrightarrow> SetEvictable f b r = Inr r \<and> Remove_frame f r = Inr r))"
proof -
  have c: "frame_id_cast (replacer_size r) = int (replacer_size r)"
    using small by (rule frame_id_cast_small)
  have ra: "\<exists>r'. RecordAccess f r = Inr r' \<and>
                  (case node_store r f of
                     None \<Rightarrow>
                       node_store r' = (node_store r)(f \<mapsto> length (nodes r)) \<and>
                       length (nodes r') = length (nodes r) + 1 \<and>
                       fid (nodes r' ! length (nodes r)) = f \<and>
                       less_k_list r' = length (nodes r) # less_k_list r \<and>
                       Size r' = Size r + 1
                   | Some a \<Rightarrow> node_store r' = node_store r \<and> Size r' = Size r)"
    if "f < int (replacer_size r)"
  proof (cases "node_store r f")
    case None
    with that c show ?thesis by (simp add: RecordAccess_def Let_def Size_def)
  next
    case (Some a)
    with that c show ?thesis by (simp add: RecordAccess_def Let_def Size_def)
  qed
  have rest: "(int (replacer_size r) \<le> f \<longrightarrow>
            RecordAccess f r = Inl AssertionFailure \<and>
            SetEvictable f b r = Inl AssertionFailure \<and>
            Remove_frame f r = Inl AssertionFailure) \<and>
         (f < int (replacer_size r) \<longrightarrow> node_store r f = None \<longrightarrow>
            SetEvictable f b r = Inr r \<and> Remove_frame f r = Inr r)"
    using c by (simp add: RecordAccess_def SetEvictable_def Remove_frame_def)
  from ra rest show ?thesis by blast
qed

theorem frame_id_check_witness:
  "RecordAccess 7 (LRUKReplacer_init 7 2 False) = Inl AssertionFailure \<and>
   SetEvictable 7 True (LRUKReplacer_init 7 2 False) = Inl AssertionFailure \<and>
   Remove_frame 7 (LRUKReplacer_init 7 2 False) = Inl AssertionFailure \<and>
   (\<exists>r'. RecordAccess (- 1) (LRUKReplacer_init 7 2 False) = Inr r' \<and>
         node_store r' = [- 1 \<mapsto> 0] \<and> Size r' = 1) \<and>
   (\<exists>r'. RecordAccess 3 (LRUKReplacer_init 7 2 False) = Inr r' \<and>
         node_store r' = [3 \<mapsto> 0] \<and> fid (nodes r' ! 0) = 3) \<and>
   (\<exists>r'. RecordAccess 0 (one_access_state False) = Inr r' \<and>
         node_store r' = node_store (one_access_state False)) \<and>
   SetEvictable 3 True (LRUKReplacer_init 7 2 False) = Inr (LRUKReplacer_init 7 2 False) \<and>
   Remove_frame 3 (LRUKReplacer_init 7 2 False) = Inr (LRUKReplacer_init 7 2 False)"
proof -
  let ?r = "LRUKReplacer_init 7 2 False"
  have s: "replacer_size ?r < 2 ^ 31" "replacer_size (one_access_state False) < 2 ^ 31"
    by (simp_all add: LRUKReplacer_init_def one_access_state_def)
  have i: "node_store ?r = Map.empty" "replacer_size ?r = 7" "nodes ?r = []" "Size ?r = 0"
    by (simp_all add: LRUKReplacer_init_def Size_def)
  have o: "node_store (one_access_state False) 0 = Some 0"
    "replacer_size (one_access_state False) = 7"
    by (simp_all add: one_access_state_def)
  from frame_id_check [OF s(1), of 7 True] i
  have a: "RecordAccess 7 ?r = Inl AssertionFailure \<and> SetEvictable 7 True ?r = Inl AssertionFailure
     \<and> Remove_frame 7 ?r = Inl AssertionFailure" by simp
  from frame_id_check [OF s(1), of "- 1" True] i
  have b: "\<exists>r'. RecordAccess (- 1) ?r = Inr r' \<and> node_store r' = [- 1 \<mapsto> 0] \<and> Size r' = 1"
    by auto
  from frame_id_check [OF s(1), of 3 True] i
  have c: "(\<exists>r'. RecordAccess 3 ?r = Inr r' \<and> node_store r' = [3 \<mapsto> 0] \<and> fid (nodes r' ! 0) = 3)
     \<and> SetEvictable 3 True ?r = Inr ?r \<and> Remove_frame 3 ?r = Inr ?r"
    by auto
  from frame_id_check [OF s(2), of 0 True] o
  have d: "\<exists>r'. RecordAccess 0 (one_access_state False) = Inr r' \<and>
         node_store r' = node_store (one_access_state False)"
    by auto
  from a b c d show ?thesis by blast
qed

text \<open>
  C5 as stated fails: \<open>-1\<close> is outside \<open>[0, 7)\<close>, yet \<open>RecordAccess(-1)\<close> on a fresh
  replacer of 7 frames does not abort; it creates a node for frame \<open>-1\<close>. And with
  \<open>num_frames = 2^31\<close> the cast to the frame id type gives \<open>-2^31\<close>: frame 0 is inside
  the range and not tracked, yet \<open>SetEvictable(0, true)\<close> fails the assertion.
\<close>

theorem frame_id_counterexample:
  "\<not> (0 \<le> (- 1 :: int) \<and> (- 1 :: int) < 7) \<and>
   RecordAccess (- 1) (LRUKReplacer_init 7 2 False) = Inr negative_frame_state \<and>
   negative_frame_state \<noteq> LRUKReplacer_init 7 2 False \<and>
   (0 \<le> (0 :: int) \<and> (0 :: int) < 2 ^ 31) \<and>
   SetEvictable 0 True (LRUKReplacer_init (2 ^ 31) 2 False) = Inl AssertionFailure"
proof -
  have "RecordAccess (- 1) (LRUKReplacer_init 7 2 False) = Inr negative_frame_state"
    by (simp add: replacer_simps frame_id_cast_def negative_frame_state_def)
  moreover have "curr_size negative_frame_state \<noteq> curr_size (LRUKReplacer_init 7 2 False)"
    by (simp add: negative_frame_state_def LRUKReplacer_init_def)
  then have "negative_frame_state \<noteq> LRUKReplacer_init 7 2 False" by auto
  moreover have "SetEvictable 0 True (LRUKReplacer_init (2 ^ 31) 2 False) = Inl AssertionFailure"
    by (simp add: SetEvictable_def LRUKReplacer_init_def frame_id_cast_def)
  ultimately show ?thesis by simp
qed

section \<open>Replacer: eviction order\<close>

text \<open>
  C6. In every state a replacer with \<open>1 \<le> K\<close> reaches by a sequence of operations, if
  some tracked frame is evictable and has fewer than K recorded accesses, then
  \<open>Evict\<close> succeeds and the frame it returns is a tracked, evictable frame with fewer
  than K recorded accesses: it never returns a frame with K or more accesses, however
  old or recent those accesses are.
\<close>

theorem evict_prefers_sub_k:
  assumes k: "1 \<le> k" and run: "run ops (LRUKReplacer_init n k ev) = Inr r"
    and f: "node_store r f = Some a" "is_evictable (nodes r ! a)"
           "get_access_count (nodes r ! a) < k"
  shows "\<exists>g b r'. Evict r = Some (g, r') \<and> node_store r g = Some b \<and>
           is_evictable (nodes r ! b) \<and> get_access_count (nodes r ! b) < k"
proof -
  have rk: "repl_k r = k" using run_params [OF run] by (simp add: LRUKReplacer_init_def)
  have "store_inv r" using store_inv_run [OF store_inv_init [OF k] run] .
  with f(1) have "history (nodes r ! a) \<noteq> []" by (simp add: store_inv_def)
  with f(3) have k2: "2 \<le> k" by (cases "history (nodes r ! a)") (simp_all add: get_access_count_def)
  have ok: "replacer_inv r" "size_inv r"
    using ok_run [OF ok_init [OF k2] run] by (simp_all add: replacer_ok_def)
  have fa: "a < length (nodes r)" "fid (nodes r ! a) = f"
    using store_facts [OF ok(1) f(1)] by simp_all
  have tra: "tracked r a" using fa f(1) by (simp add: tracked_def)
  have less: "\<And>c. c \<in> set (less_k_list r) \<longleftrightarrow>
         tracked r c \<and> get_access_count (nodes r ! c) < k"
    using ok(1) rk by (simp add: replacer_inv_def)
  from less [of a] tra f(3) have "a \<in> set (less_k_list r)" by simp
  with f(2) have "find_evictable (nodes r) (less_k_list r) \<noteq> None"
    by (auto simp: find_evictable_None)
  then obtain b where b: "find_evictable (nodes r) (less_k_list r) = Some b" by auto
  from find_evictable_Some [OF b] less [of b]
  have bb: "tracked r b" "get_access_count (nodes r ! b) < k" "is_evictable (nodes r ! b)"
    by simp_all
  have "f \<in> evictable_frames r" using f by (auto simp: evictable_frames_def)
  with finite_evictable_frames [OF ok(1)] have "0 < evictable_count r"
    by (auto simp: evictable_count_def card_gt_0_iff)
  with ok(2) have "curr_size r \<noteq> 0" by (simp add: size_inv_def)
  with b have "Evict r = Some (evict_node r b True)" by (simp add: Evict_def)
  then have "Evict r = Some (fid (nodes r ! b), snd (evict_node r b True))"
    by (simp add: evict_node_def Let_def)
  with bb show ?thesis by (auto simp: tracked_def)
qed

theorem evict_prefers_sub_k_witness:
  "\<exists>r. run [OpRecordAccess 1, OpRecordAccess 1, OpRecordAccess 2, OpRecordAccess 1,
            OpSetEvictable 1 True, OpSetEvictable 2 True] (LRUKReplacer_init 7 2 False) = Inr r \<and>
       node_store r 1 = Some 0 \<and> is_evictable (nodes r ! 0) \<and> get_access_count (nodes r ! 0) = 2 \<and>
       node_store r 2 = Some 1 \<and> is_evictable (nodes r ! 1) \<and> get_access_count (nodes r ! 1) < 2 \<and>
       (\<exists>r'. Evict r = Some (2, r'))"
proof -
  obtain r where r: "run [OpRecordAccess 1, OpRecordAccess 1, OpRecordAccess 2, OpRecordAccess 1,
            OpSetEvictable 1 True, OpSetEvictable 2 True] (LRUKReplacer_init 7 2 False) = Inr r"
    by (simp add: replacer_simps frame_id_cast_def)
  have facts: "node_store r 1 = Some 0" "is_evictable (nodes r ! 0)"
     "get_access_count (nodes r ! 0) = 2" "node_store r 2 = Some 1" "is_evictable (nodes r ! 1)"
     "get_access_count (nodes r ! 1) < 2"
    using r by (auto simp: replacer_simps frame_id_cast_def)
  from evict_prefers_sub_k [of 2 _ 7 False r 2 1, OF _ r facts(4,5,6)]
  obtain g b r' where e: "Evict r = Some (g, r')" "node_store r g = Some b"
     "get_access_count (nodes r ! b) < 2"
    by auto
  have "node_store r g = Some b \<Longrightarrow> g = 1 \<or> g = 2" for g b
    using r by (auto simp: replacer_simps frame_id_cast_def split: if_splits)
  with e facts have "g = 2" by fastforce
  with e r facts show ?thesis by auto
qed

text \<open>
  C7. \<open>K = 2\<close>, four distinct frames A, B, C, D accessed in the order A B C D A B C D
  (timestamps 1 to 8) and then all marked evictable: the full-K list holds D, C, B, A
  from front to back, their oldest recorded timestamps being 4, 3, 2, 1, so it is
  ordered by that timestamp, and four calls of \<open>Evict\<close>, which scans from the back,
  return A, B, C, D in this order. This holds for either initial value of the
  evictable flag. In every state such a replacer reaches, whatever the operations, the
  full-K list is ordered by that timestamp (\<open>more_k_sorted\<close>).
\<close>

theorem eviction_order_abcd:
  assumes d: "distinct [A, B, C, D]"
    and n: "n < 2 ^ 31" "A < int n" "B < int n" "C < int n" "D < int n"
  shows "\<exists>r. run (abcd_accesses A B C D) (LRUKReplacer_init n 2 ev) = Inr r \<and>
     current_timestamp r = 8 \<and>
     map (\<lambda>a. fid (nodes r ! a)) (more_k_list r) = [D, C, B, A] \<and>
     map (\<lambda>a. get_least_recent_timestamp (nodes r ! a)) (more_k_list r) = [4, 3, 2, 1] \<and>
     evict_times 4 r = [Some A, Some B, Some C, Some D] \<and>
     (\<forall>ops' r'. run ops' (LRUKReplacer_init n 2 ev) = Inr r' \<longrightarrow> more_k_sorted r')"
proof -
  have c: "frame_id_cast n = int n" using n(1) by (rule frame_id_cast_small)
  have ne: "A \<noteq> B" "A \<noteq> C" "A \<noteq> D" "B \<noteq> C" "B \<noteq> D" "C \<noteq> D"
    using d by simp_all
  have sorted: "\<forall>ops' r'. run ops' (LRUKReplacer_init n 2 ev) = Inr r' \<longrightarrow> more_k_sorted r'"
    by (auto intro: reachable_more_k_list_sorted)
  have "\<exists>r. run (abcd_accesses A B C D) (LRUKReplacer_init n 2 ev) = Inr r \<and>
     current_timestamp r = 8 \<and>
     map (\<lambda>a. fid (nodes r ! a)) (more_k_list r) = [D, C, B, A] \<and>
     map (\<lambda>a. get_least_recent_timestamp (nodes r ! a)) (more_k_list r) = [4, 3, 2, 1] \<and>
     evict_times 4 r = [Some A, Some B, Some C, Some D]"
    using ne ne [symmetric] n(2-) c
    by (simp add: abcd_accesses_def replacer_simps eval_nat_numeral)
  then obtain r where r: "run (abcd_accesses A B C D) (LRUKReplacer_init n 2 ev) = Inr r \<and>
     current_timestamp r = 8 \<and>
     map (\<lambda>a. fid (nodes r ! a)) (more_k_list r) = [D, C, B, A] \<and>
     map (\<lambda>a. get_least_recent_timestamp (nodes r ! a)) (more_k_list r) = [4, 3, 2, 1] \<and>
     evict_times 4 r = [Some A, Some B, Some C, Some D]" ..
  show ?thesis
  proof (rule exI [of _ r])
    from r sorted
    show "run (abcd_accesses A B C D) (LRUKReplacer_init n 2 ev) = Inr r \<and>
     current_timestamp r = 8 \<and>
     map (\<lambda>a. fid (nodes r ! a)) (more_k_list r) = [D, C, B, A] \<and>
     map (\<lambda>a. get_least_recent_timestamp (nodes r ! a)) (more_k_list r) = [4, 3, 2, 1] \<and>
     evict_times 4 r = [Some A, Some B, Some C, Some D] \<and>
     (\<forall>ops' r'. run ops' (LRUKReplacer_init n 2 ev) = Inr r' \<longrightarrow> more_k_sorted r')"
      by (intro conjI) (simp_all only: simp_thms)
  qed
qed

theorem eviction_order_abcd_witness:
  "\<exists>r. run (abcd_accesses 1 2 3 4) (LRUKReplacer_init 7 2 False) = Inr r \<and>
     evict_times 4 r = [Some 1, Some 2, Some 3, Some 4]"
proof -
  have "distinct [1, 2, 3, 4 :: int]" "(7 :: nat) < 2 ^ 31" "(1 :: int) < int 7" "(2 :: int) < int 7"
    "(3 :: int) < int 7" "(4 :: int) < int 7"
    by simp_all
  from eviction_order_abcd [OF this, of False] show ?thesis by blast
qed

section \<open>Buffer pool manager: evaluation\<close>

lemmas bpm_simps = NewPage_def getNewFrame_def UnpinPage_def DeletePage_def FetchPage_def
  frame_ok_def Pin_def Unpin_def MarkDirty_def SetPageId_def ResetMemory_def ResetMetadata_def
  new_frame_def WritePage_def ReadPage_def DeallocatePage_def BufferPoolManager_init_def
  INVALID_PAGE_ID_def empty_disk_def zero_bytes_def

lemma pinned_pool_reached:
  "NewPage (BufferPoolManager_init 1 empty_disk 2 True) = Inr (Some (0, 0), pinned_pool)"
  by (simp add: bpm_simps replacer_simps frame_id_cast_def pinned_pool_def)

lemma dirty_pool_reached:
  "UnpinPage pinned_pool 0 True = Inr (True, dirty_pool)"
  by (simp add: bpm_simps replacer_simps frame_id_cast_def pinned_pool_def dirty_pool_def)

lemma SetEvictable_succeeds:
  "f < frame_id_cast (replacer_size r) \<Longrightarrow> \<exists>r'. SetEvictable f b r = Inr r'"
  by (simp add: SetEvictable_def split: option.splits)

lemma Remove_frame_untracks:
  "Remove_frame f r = Inr r' \<Longrightarrow> node_store r' f = None"
  by (auto simp: Remove_frame_def Let_def split: if_splits option.splits)

section \<open>Buffer pool manager: the page table invariant\<close>

lemma table_inv_init: "table_inv (BufferPoolManager_init n dm k ev)"
  by (simp add: table_inv_def BufferPoolManager_init_def distinct_map)

lemma getNewFrame_None: "getNewFrame s pid is_new = Inr (None, s') \<Longrightarrow> s' = s"
  by (auto simp: getNewFrame_def Let_def
        split: list.splits option.splits sum.splits if_splits prod.splits)

lemma getNewFrame_Some:
  assumes "getNewFrame s pid is_new = Inr (Some (f, np), s')"
  shows "frame_ok s f" and "length (pages s') = length (pages s)"
    and "page_id (pages s' ! nat f) = np"
    and "nat g \<noteq> nat f \<Longrightarrow> pages s' ! nat g = pages s ! nat g"
    and "free_list s = f # free_list s' \<and> page_table s' = (page_table s)(np \<mapsto> f) \<or>
         free_list s = [] \<and> free_list s' = [] \<and>
         page_table s' = ((page_table s)(page_id (pages s ! nat f) := None))(np \<mapsto> f)"
proof -
  have "frame_ok s f \<and> length (pages s') = length (pages s) \<and>
         page_id (pages s' ! nat f) = np \<and>
         (nat g \<noteq> nat f \<longrightarrow> pages s' ! nat g = pages s ! nat g) \<and>
         (free_list s = f # free_list s' \<and> page_table s' = (page_table s)(np \<mapsto> f) \<or>
          free_list s = [] \<and> free_list s' = [] \<and>
          page_table s' = ((page_table s)(page_id (pages s ! nat f) := None))(np \<mapsto> f))"
  proof (cases "free_list s")
    case Nil
    with assms show ?thesis
      by (auto simp: getNewFrame_def Let_def frame_ok_def Pin_def SetPageId_def
            split: option.splits sum.splits if_splits prod.splits)
  next
    case (Cons g rest)
    with assms show ?thesis
      by (auto simp: getNewFrame_def Let_def frame_ok_def Pin_def SetPageId_def
            split: sum.splits if_splits)
  qed
  then show "frame_ok s f" and "length (pages s') = length (pages s)"
    and "page_id (pages s' ! nat f) = np"
    and "nat g \<noteq> nat f \<Longrightarrow> pages s' ! nat g = pages s ! nat g"
    and "free_list s = f # free_list s' \<and> page_table s' = (page_table s)(np \<mapsto> f) \<or>
         free_list s = [] \<and> free_list s' = [] \<and>
         page_table s' = ((page_table s)(page_id (pages s ! nat f) := None))(np \<mapsto> f)"
    by simp_all
qed

lemma frame_ok_cong: "length (pages s') = length (pages s) \<Longrightarrow> frame_ok s' f = frame_ok s f"
  by (simp add: frame_ok_def)

lemma table_inv_getNewFrame:
  assumes inv: "table_inv s" and got: "getNewFrame s pid is_new = Inr (Some (f, np), s')"
  shows "table_inv s'"
proof -
  note ok = getNewFrame_Some(1) [OF got] and len = getNewFrame_Some(2) [OF got]
    and pf = getNewFrame_Some(3) [OF got] and other = getNewFrame_Some(4) [OF got]
    and paths = getNewFrame_Some(5) [OF got]
  have d: "distinct (free_list s)"
    and tab: "\<And>p g. page_table s p = Some g \<Longrightarrow>
         g \<notin> set (free_list s) \<and> frame_ok s g \<and> page_id (pages s ! nat g) = p"
    using inv by (simp_all add: table_inv_def)
  have lists: "distinct (free_list s') \<and> set (free_list s') \<subseteq> set (free_list s) \<and>
               f \<notin> set (free_list s')"
  proof (cases "free_list s")
    case Nil
    with paths show ?thesis by simp
  next
    case (Cons g rest)
    with paths have "g = f" "rest = free_list s'" by simp_all
    with Cons d show ?thesis by auto
  qed
  have new: "page_table s' np = Some f"
    using paths by (elim disjE conjE) simp_all
  have old: "page_table s q = Some g \<and> g \<noteq> f" if e: "page_table s' q = Some g" and ne: "q \<noteq> np" for q g
  proof (cases "free_list s")
    case Nil
    with paths have t: "page_table s' = ((page_table s)(page_id (pages s ! nat f) := None))(np \<mapsto> f)"
      by simp
    from e ne have q: "page_table s q = Some g" "q \<noteq> page_id (pages s ! nat f)"
      unfolding t by (simp_all split: if_splits)
    from tab [OF q(1)] q(2) have "g \<noteq> f" by auto
    with q show ?thesis by simp
  next
    case (Cons h rest)
    with paths have t: "page_table s' = (page_table s)(np \<mapsto> f)" and h: "h = f" by simp_all
    from e ne have q: "page_table s q = Some g" unfolding t by simp
    from tab [OF q] Cons h have "g \<noteq> f" by auto
    with q show ?thesis by simp
  qed
  have "g \<notin> set (free_list s') \<and> frame_ok s' g \<and> page_id (pages s' ! nat g) = q"
    if e: "page_table s' q = Some g" for q g
  proof (cases "q = np")
    case True
    with e new have "g = f" by simp
    with True lists ok pf frame_ok_cong [OF len, of f] show ?thesis by simp
  next
    case False
    from old [OF e False] have q: "page_table s q = Some g" and ne: "g \<noteq> f" by simp_all
    from tab [OF q] have g: "g \<notin> set (free_list s)" "frame_ok s g" "page_id (pages s ! nat g) = q"
      by simp_all
    from g(2) ok ne have "nat g \<noteq> nat f" by (auto simp: frame_ok_def)
    from other [OF this] have "pages s' ! nat g = pages s ! nat g" .
    moreover from g(1) lists have "g \<notin> set (free_list s')" by blast
    moreover from g(2) frame_ok_cong [OF len, of g] have "frame_ok s' g" by simp
    ultimately show ?thesis using g(3) by simp
  qed
  with lists show ?thesis by (simp add: table_inv_def)
qed

lemma table_inv_same_table:
  assumes inv: "table_inv s"
    and "free_list s' = free_list s" "page_table s' = page_table s"
    and "length (pages s') = length (pages s)"
    and "\<And>g. page_id (pages s' ! nat g) = page_id (pages s ! nat g)"
  shows "table_inv s'"
  using assms frame_ok_cong [of s' s] by (simp add: table_inv_def)

lemma table_inv_NewPage: "table_inv s \<Longrightarrow> NewPage s = Inr (res, s') \<Longrightarrow> table_inv s'"
  by (cases res) (auto simp: NewPage_def dest: getNewFrame_None table_inv_getNewFrame)

lemma table_inv_FetchPage:
  assumes inv: "table_inv s" and ok: "FetchPage s p = Inr (res, s')"
  shows "table_inv s'"
proof (cases "page_table s p")
  case None
  show ?thesis
  proof (cases "getNewFrame s p False")
    case (Inl e)
    with None ok show ?thesis by (simp add: FetchPage_def)
  next
    case (Inr x)
    obtain r s1 where x: "x = (r, s1)" by (cases x)
    show ?thesis
    proof (cases r)
      case None
      with Inr x \<open>page_table s p = None\<close> ok inv getNewFrame_None [of s p False s1]
      show ?thesis by (simp add: FetchPage_def)
    next
      case (Some fp)
      obtain f np where fp: "fp = (f, np)" by (cases fp)
      from Inr x Some fp have got: "getNewFrame s p False = Inr (Some (f, np), s1)" by simp
      from table_inv_getNewFrame [OF inv got] have i1: "table_inv s1" .
      from got \<open>page_table s p = None\<close> ok
      have s': "s' = s1\<lparr>pages := (pages s1)[nat f := (pages s1 ! nat f)\<lparr>data :=
                    fst (ReadPage p (disk_manager s1))\<rparr>],
                  disk_manager := snd (ReadPage p (disk_manager s1))\<rparr>"
        by (simp add: FetchPage_def split: prod.splits)
      have same: "page_id (pages s' ! nat g) = page_id (pages s1 ! nat g)" for g
        by (cases "nat f < length (pages s1)"; cases "nat g = nat f")
           (simp_all add: s' list_update_beyond)
      show ?thesis by (rule table_inv_same_table [OF i1 _ _ _ same]) (simp_all add: s')
    qed
  qed
next
  case (Some f)
  with ok obtain r2 where s': "s' = s\<lparr>pages := (pages s)[nat f := Pin (pages s ! nat f)], replacer := r2\<rparr>"
    by (auto simp: FetchPage_def Let_def split: if_splits sum.splits)
  have same: "page_id (pages s' ! nat g) = page_id (pages s ! nat g)" for g
    by (cases "nat f < length (pages s)"; cases "nat g = nat f")
       (simp_all add: s' Pin_def list_update_beyond)
  show ?thesis by (rule table_inv_same_table [OF inv _ _ _ same]) (simp_all add: s')
qed

lemma UnpinPage_fields:
  assumes "UnpinPage s p d = Inr (res, s')"
  shows "free_list s' = free_list s" and "page_table s' = page_table s"
    and "length (pages s') = length (pages s)"
    and "page_id (pages s' ! nat g) = page_id (pages s ! nat g)"
  using assms
  by (auto simp: UnpinPage_def Let_def Unpin_def MarkDirty_def frame_ok_def nth_list_update
        split: option.splits if_splits sum.splits)

lemma table_inv_UnpinPage: "table_inv s \<Longrightarrow> UnpinPage s p d = Inr (res, s') \<Longrightarrow> table_inv s'"
  by (erule table_inv_same_table) (erule UnpinPage_fields)+

lemma FlushPage_fields:
  assumes "FlushPage s p = Inr (res, s')"
  shows "free_list s' = free_list s" and "page_table s' = page_table s"
    and "length (pages s') = length (pages s)"
    and "page_id (pages s' ! nat g) = page_id (pages s ! nat g)"
  using assms
  by (auto simp: FlushPage_def Let_def MarkDirty_def frame_ok_def nth_list_update
        split: option.splits if_splits)

lemma table_inv_FlushPage: "table_inv s \<Longrightarrow> FlushPage s p = Inr (res, s') \<Longrightarrow> table_inv s'"
  by (erule table_inv_same_table) (erule FlushPage_fields)+

lemma table_inv_DeletePage:
  assumes inv: "table_inv s" and ok: "DeletePage s p = Inr (res, s')"
  shows "table_inv s'"
proof (cases "s' = s")
  case True
  with inv show ?thesis by simp
next
  case False
  with ok obtain f where pf: "page_table s p = Some f" and fok: "frame_ok s f"
    and fields: "page_table s' = (page_table s)(p := None)"
      "pages s' = (pages s)[nat f := ResetMetadata (ResetMemory (pages s ! nat f))]"
      "free_list s' = free_list s @ [f]"
    by (auto simp: DeletePage_def Let_def split: option.splits if_splits sum.splits)
  have d: "distinct (free_list s)"
    and tab: "\<And>q g. page_table s q = Some g \<Longrightarrow>
         g \<notin> set (free_list s) \<and> frame_ok s g \<and> page_id (pages s ! nat g) = q"
    using inv by (simp_all add: table_inv_def)
  from tab [OF pf] have f: "f \<notin> set (free_list s)" "page_id (pages s ! nat f) = p" by simp_all
  have len: "length (pages s') = length (pages s)" by (simp add: fields)
  have "g \<notin> set (free_list s') \<and> frame_ok s' g \<and> page_id (pages s' ! nat g) = q"
    if e: "page_table s' q = Some g" for q g
  proof -
    from e have q: "page_table s q = Some g" "q \<noteq> p"
      by (simp_all add: fields split: if_splits)
    from tab [OF q(1)] have g: "g \<notin> set (free_list s)" "frame_ok s g" "page_id (pages s ! nat g) = q"
      by simp_all
    from g(3) f(2) q(2) have ne: "g \<noteq> f" by auto
    with g(2) fok have "nat g \<noteq> nat f" by (auto simp: frame_ok_def)
    then have "pages s' ! nat g = pages s ! nat g" by (simp add: fields)
    with g ne frame_ok_cong [OF len, of g] show ?thesis by (simp add: fields)
  qed
  moreover have "distinct (free_list s')" using d f(1) by (simp add: fields)
  ultimately show ?thesis by (simp add: table_inv_def)
qed

lemma table_inv_step: "table_inv s \<Longrightarrow> bpm_step op s = Inr s' \<Longrightarrow> table_inv s'"
proof (cases op)
  case OpNewPage
  then show "table_inv s \<Longrightarrow> bpm_step op s = Inr s' \<Longrightarrow> table_inv s'"
    by (cases "NewPage s") (auto dest: table_inv_NewPage)
next
  case (OpFetchPage p)
  then show "table_inv s \<Longrightarrow> bpm_step op s = Inr s' \<Longrightarrow> table_inv s'"
    by (cases "FetchPage s p") (auto dest: table_inv_FetchPage)
next
  case (OpUnpinPage p d)
  then show "table_inv s \<Longrightarrow> bpm_step op s = Inr s' \<Longrightarrow> table_inv s'"
    by (cases "UnpinPage s p d") (auto dest: table_inv_UnpinPage)
next
  case (OpFlushPage p)
  then show "table_inv s \<Longrightarrow> bpm_step op s = Inr s' \<Longrightarrow> table_inv s'"
    by (cases "FlushPage s p") (auto dest: table_inv_FlushPage)
next
  case (OpDeletePage p)
  then show "table_inv s \<Longrightarrow> bpm_step op s = Inr s' \<Longrightarrow> table_inv s'"
    by (cases "DeletePage s p") (auto dest: table_inv_DeletePage)
qed

lemma table_inv_run: "table_inv s \<Longrightarrow> bpm_run ops s = Inr s' \<Longrightarrow> table_inv s'"
proof (induction ops arbitrary: s)
  case Nil
  then show ?case by simp
next
  case (Cons op ops)
  then show ?case by (auto split: sum.splits dest: table_inv_step)
qed

lemma resident_frame_not_free:
  assumes "bpm_run ops (BufferPoolManager_init n dm k ev) = Inr s" and "page_table s p = Some f"
  shows "f \<notin> set (free_list s) \<and> frame_ok s f \<and> page_id (pages s ! nat f) = p"
  using table_inv_run [OF table_inv_init assms(1)] assms(2) by (simp add: table_inv_def)

lemma dirty_pool_run:
  "bpm_run [OpNewPage, OpUnpinPage 0 True] (BufferPoolManager_init 1 empty_disk 2 True)
     = Inr dirty_pool"
  using pinned_pool_reached dirty_pool_reached by simp

lemma getNewFrame_victim:
  assumes got: "getNewFrame s pid is_new = Inr (Some (f, new_pid), s')"
    and not_free: "f \<notin> set (free_list s)"
  shows "free_list s = [] \<and> (\<exists>r'. Evict (replacer s) = Some (f, r')) \<and>
         (is_dirty (pages s ! nat f) \<longrightarrow>
            disk_log (disk_manager s') = disk_log (disk_manager s)
               @ [EvWritePage (page_id (pages s ! nat f)) (data (pages s ! nat f))] \<and>
            disk_pages (disk_manager s') (page_id (pages s ! nat f))
               = Some (data (pages s ! nat f))) \<and>
         (\<not> is_dirty (pages s ! nat f) \<longrightarrow> disk_manager s' = disk_manager s) \<and>
         page_table s' = ((page_table s)(page_id (pages s ! nat f) := None))(new_pid \<mapsto> f) \<and>
         pages s' ! nat f = new_frame\<lparr>page_id := new_pid, pin_count := 1\<rparr> \<and>
         (page_table s pid = None \<and> \<not> is_new \<longrightarrow>
            (\<exists>s''. FetchPage s pid = Inr (Some f, s'') \<and>
                   disk_log (disk_manager s'') = disk_log (disk_manager s') @ [EvReadPage pid]))"
proof -
  have e: "free_list s = []"
  proof (cases "free_list s")
    case Nil
    then show ?thesis .
  next
    case (Cons g rest)
    with got have "g = f"
      by (auto simp: getNewFrame_def Let_def split: if_splits sum.splits)
    with Cons not_free show ?thesis by simp
  qed
  have fr: "Pin (SetPageId p (ResetMemory (ResetMetadata q))) = new_frame\<lparr>page_id := p, pin_count := 1\<rparr>"
    for p q
    by (simp add: Pin_def SetPageId_def ResetMemory_def ResetMetadata_def new_frame_def)
  have main: "(\<exists>r'. Evict (replacer s) = Some (f, r')) \<and>
         disk_manager s' =
           (if is_dirty (pages s ! nat f)
            then WritePage (page_id (pages s ! nat f)) (data (pages s ! nat f)) (disk_manager s)
            else disk_manager s) \<and>
         page_table s' = ((page_table s)(page_id (pages s ! nat f) := None))(new_pid \<mapsto> f) \<and>
         pages s' ! nat f = new_frame\<lparr>page_id := new_pid, pin_count := 1\<rparr>"
    using got e
    by (auto simp: getNewFrame_def Let_def fr frame_ok_def
          split: if_splits sum.splits option.splits prod.splits)
  have fetch: "\<exists>s''. FetchPage s pid = Inr (Some f, s'') \<and>
                   disk_log (disk_manager s'') = disk_log (disk_manager s') @ [EvReadPage pid]"
    if "page_table s pid = None" "\<not> is_new"
    using that got by (simp add: FetchPage_def ReadPage_def)
  from e main fetch show ?thesis by (simp add: WritePage_def)
qed

section \<open>Buffer pool manager: claims\<close>

text \<open>
  C4. Let \<open>getNewFrame\<close> (the helper of \<open>NewPage\<close>, and of \<open>FetchPage\<close> on a miss)
  hand out frame \<open>f\<close>, where either the free list is empty or \<open>f\<close> holds a resident
  page \<open>p\<close> in a state the manager has reached from construction. Then the free list
  was empty and \<open>f\<close> is the replacer's victim. If the frame was dirty, the one call the
  disk manager has received is \<open>write_page\<close> with the frame's old page id and its old
  bytes, and the disk holds those bytes; if it was clean the disk manager is untouched.
  The page table is the old one with the old page id erased and the new page id mapped
  to \<open>f\<close>, and the frame is zeroed, clean and pinned once. On a \<open>FetchPage\<close> miss the
  \<open>read_page\<close> of the new page comes after that write. The old page id of the frame
  of a resident page \<open>p\<close> is \<open>p\<close>: it is the resident page that is written.
\<close>

theorem victim_flushed_before_reuse:
  assumes got: "getNewFrame s pid is_new = Inr (Some (f, new_pid), s')"
    and victim: "free_list s = [] \<or>
                 (bpm_run ops (BufferPoolManager_init n dm k ev) = Inr s \<and> page_table s p = Some f)"
  shows "free_list s = [] \<and> (\<exists>r'. Evict (replacer s) = Some (f, r')) \<and>
         (is_dirty (pages s ! nat f) \<longrightarrow>
            disk_log (disk_manager s') = disk_log (disk_manager s)
               @ [EvWritePage (page_id (pages s ! nat f)) (data (pages s ! nat f))] \<and>
            disk_pages (disk_manager s') (page_id (pages s ! nat f))
               = Some (data (pages s ! nat f))) \<and>
         (\<not> is_dirty (pages s ! nat f) \<longrightarrow> disk_manager s' = disk_manager s) \<and>
         page_table s' = ((page_table s)(page_id (pages s ! nat f) := None))(new_pid \<mapsto> f) \<and>
         pages s' ! nat f = new_frame\<lparr>page_id := new_pid, pin_count := 1\<rparr> \<and>
         (page_table s pid = None \<and> \<not> is_new \<longrightarrow>
            (\<exists>s''. FetchPage s pid = Inr (Some f, s'') \<and>
                   disk_log (disk_manager s'') = disk_log (disk_manager s') @ [EvReadPage pid])) \<and>
         (bpm_run ops (BufferPoolManager_init n dm k ev) = Inr s \<and> page_table s p = Some f \<longrightarrow>
            page_id (pages s ! nat f) = p)"
proof -
  have "f \<notin> set (free_list s)"
    using victim resident_frame_not_free [of ops n dm k ev s p f] by auto
  from getNewFrame_victim [OF got this] resident_frame_not_free [of ops n dm k ev s p f]
  show ?thesis by simp
qed

theorem victim_flushed_before_reuse_witness:
  "\<exists>s'. NewPage dirty_pool = Inr (Some (0, 1), s') \<and>
        disk_log (disk_manager s') = [EvWritePage 0 zero_bytes] \<and>
        disk_pages (disk_manager s') 0 = Some zero_bytes \<and>
        page_table s' = [1 \<mapsto> 0] \<and>
        (\<exists>t' t''. getNewFrame dirty_pool 7 False = Inr (Some (0, 7), t') \<and>
                   FetchPage dirty_pool 7 = Inr (Some 0, t'') \<and>
                   disk_log (disk_manager t'') = [EvWritePage 0 zero_bytes, EvReadPage 7])"
proof -
  obtain s' where n: "getNewFrame dirty_pool INVALID_PAGE_ID True = Inr (Some (0, 1), s')"
    by (simp add: bpm_simps replacer_simps frame_id_cast_def dirty_pool_def)
  obtain t' where t: "getNewFrame dirty_pool 7 False = Inr (Some (0, 7), t')"
    by (simp add: bpm_simps replacer_simps frame_id_cast_def dirty_pool_def)
  have d: "is_dirty (pages dirty_pool ! nat 0)"
    "page_id (pages dirty_pool ! nat 0) = 0" "data (pages dirty_pool ! nat 0) = zero_bytes"
    "disk_manager dirty_pool = empty_disk" "page_table dirty_pool = [0 \<mapsto> 0]"
    "page_table dirty_pool 7 = None"
    by (simp_all add: dirty_pool_def)
  have v1: "free_list dirty_pool = [] \<or>
      (bpm_run [] (BufferPoolManager_init 1 empty_disk 2 True) = Inr dirty_pool \<and>
       page_table dirty_pool 0 = Some 0)"
    by (simp add: dirty_pool_def)
  have v2: "free_list dirty_pool = [] \<or>
      (bpm_run [OpNewPage, OpUnpinPage 0 True] (BufferPoolManager_init 1 empty_disk 2 True)
         = Inr dirty_pool \<and> page_table dirty_pool 0 = Some 0)"
    using dirty_pool_run d(5) by simp
  from victim_flushed_before_reuse [OF n v1] d
  have a: "disk_log (disk_manager s') = [EvWritePage 0 zero_bytes]"
     "disk_pages (disk_manager s') 0 = Some zero_bytes" "page_table s' = [1 \<mapsto> 0]"
    by (simp_all add: empty_disk_def)
  from victim_flushed_before_reuse [OF t v2] d
  obtain t'' where b: "FetchPage dirty_pool 7 = Inr (Some 0, t'')"
     "disk_log (disk_manager t'') = [EvWritePage 0 zero_bytes, EvReadPage 7]"
    by (auto simp: empty_disk_def)
  from n a t b show ?thesis by (auto simp: NewPage_def)
qed

text \<open>
  C8. Let the frame of a resident page be inside the pool and below the replacer's
  size. \<open>UnpinPage\<close> returns false with the state unchanged when the page is not
  resident or its pin count is zero. Otherwise it returns true; the frame's dirty
  flag becomes \<open>is_dirty \<or> old flag\<close>, its pin count goes down by one, and the
  replacer is the result of \<open>SetEvictable(frame, true)\<close> when the count has reached
  zero and is untouched when it has not. Nothing else changes.
\<close>

theorem unpin_page_effect:
  assumes valid: "\<forall>f. page_table s pid = Some f \<longrightarrow>
                    frame_ok s f \<and> f < frame_id_cast (replacer_size (replacer s))"
  shows "((page_table s pid = None \<or>
           (\<exists>f. page_table s pid = Some f \<and> pin_count (pages s ! nat f) = 0)) \<longrightarrow>
            UnpinPage s pid dirty = Inr (False, s)) \<and>
         (\<forall>f. page_table s pid = Some f \<and> pin_count (pages s ! nat f) \<noteq> 0 \<longrightarrow>
            (\<exists>r1. (if pin_count (pages s ! nat f) = 1
                    then SetEvictable f True (replacer s) = Inr r1
                    else r1 = replacer s) \<and>
                   UnpinPage s pid dirty =
                     Inr (True,
                          s\<lparr>pages := (pages s)[nat f := (pages s ! nat f)
                                \<lparr>is_dirty := dirty \<or> is_dirty (pages s ! nat f),
                                 pin_count := pin_count (pages s ! nat f) - 1\<rparr>],
                            replacer := r1\<rparr>)))"
proof (intro conjI allI impI)
  assume "page_table s pid = None \<or>
           (\<exists>f. page_table s pid = Some f \<and> pin_count (pages s ! nat f) = 0)"
  then show "UnpinPage s pid dirty = Inr (False, s)"
    using valid by (auto simp: UnpinPage_def Let_def)
next
  fix f
  assume a: "page_table s pid = Some f \<and> pin_count (pages s ! nat f) \<noteq> 0"
  with valid have ok: "frame_ok s f" "f < frame_id_cast (replacer_size (replacer s))" by auto
  let ?frame = "(pages s ! nat f)\<lparr>is_dirty := dirty \<or> is_dirty (pages s ! nat f),
                                 pin_count := pin_count (pages s ! nat f) - 1\<rparr>"
  have fr: "Unpin (MarkDirty (dirty \<or> is_dirty (pages s ! nat f)) (pages s ! nat f)) = ?frame"
    by (simp add: Unpin_def MarkDirty_def)
  obtain r1 where r1: "SetEvictable f True (replacer s) = Inr r1"
    using SetEvictable_succeeds [OF ok(2)] by blast
  show "\<exists>r1. (if pin_count (pages s ! nat f) = 1
                    then SetEvictable f True (replacer s) = Inr r1
                    else r1 = replacer s) \<and>
                   UnpinPage s pid dirty =
                     Inr (True,
                          s\<lparr>pages := (pages s)[nat f := ?frame], replacer := r1\<rparr>)"
  proof (cases "pin_count (pages s ! nat f) = 1")
    case True
    with a ok r1 show ?thesis
      by (intro exI [of _ r1]) (simp add: UnpinPage_def Let_def fr)
  next
    case False
    with a ok show ?thesis
      by (intro exI [of _ "replacer s"]) (simp add: UnpinPage_def Let_def fr)
  qed
qed

theorem unpin_page_effect_witness:
  "UnpinPage pinned_pool 0 True = Inr (True, dirty_pool) \<and>
   UnpinPage dirty_pool 0 False = Inr (False, dirty_pool) \<and>
   UnpinPage dirty_pool 5 True = Inr (False, dirty_pool)"
proof -
  have v: "\<forall>f. page_table pinned_pool 0 = Some f \<longrightarrow>
             frame_ok pinned_pool f \<and> f < frame_id_cast (replacer_size (replacer pinned_pool))"
    by (simp add: pinned_pool_def frame_ok_def frame_id_cast_def)
  have w: "\<forall>f. page_table dirty_pool p = Some f \<longrightarrow>
             frame_ok dirty_pool f \<and> f < frame_id_cast (replacer_size (replacer dirty_pool))" for p
    by (simp add: dirty_pool_def frame_ok_def frame_id_cast_def)
  have a: "page_table pinned_pool 0 = Some 0 \<and> pin_count (pages pinned_pool ! nat 0) \<noteq> 0"
    by (simp add: pinned_pool_def)
  have b: "page_table dirty_pool 0 = Some 0 \<and> pin_count (pages dirty_pool ! nat 0) = 0"
    by (simp add: dirty_pool_def)
  have c: "page_table dirty_pool 5 = None"
    by (simp add: dirty_pool_def)
  from unpin_page_effect [OF v, of True] a
  obtain r1 where "UnpinPage pinned_pool 0 True =
      Inr (True, pinned_pool\<lparr>pages := (pages pinned_pool)[nat 0 := (pages pinned_pool ! nat 0)
            \<lparr>is_dirty := True \<or> is_dirty (pages pinned_pool ! nat 0),
             pin_count := pin_count (pages pinned_pool ! nat 0) - 1\<rparr>], replacer := r1\<rparr>)"
    by blast
  then have "UnpinPage pinned_pool 0 True = Inr (True, dirty_pool)"
    by (simp add: dirty_pool_reached)
  moreover from unpin_page_effect [OF w, of 0 False] b
  have "UnpinPage dirty_pool 0 False = Inr (False, dirty_pool)" by blast
  moreover from unpin_page_effect [OF w, of 5 True] c
  have "UnpinPage dirty_pool 5 True = Inr (False, dirty_pool)" by blast
  ultimately show ?thesis by simp
qed

text \<open>
  C9. \<open>NewPage\<close> returns null exactly when the free list is empty and \<open>Evict\<close> returns
  false, and the manager is then exactly as before the call: page id counter, page
  table, free list, frames, replacer and disk manager.
\<close>

theorem new_page_failure_unchanged:
  "NewPage s = Inr (None, s') \<longleftrightarrow>
     (s' = s \<and> free_list s = [] \<and> Evict (replacer s) = None)"
  by (auto simp: NewPage_def getNewFrame_def Let_def
        split: list.splits option.splits sum.splits if_splits prod.splits)

theorem new_page_failure_unchanged_witness:
  "NewPage pinned_pool = Inr (None, pinned_pool) \<and> free_list pinned_pool = [] \<and>
   Evict (replacer pinned_pool) = None"
proof -
  have "free_list pinned_pool = []" "Evict (replacer pinned_pool) = None"
    by (simp_all add: pinned_pool_def Evict_def)
  with new_page_failure_unchanged [of pinned_pool pinned_pool] show ?thesis by simp
qed

text \<open>
  \<open>DeletePage\<close> on a resident page whose frame is unpinned and dirty, when the
  replacer's \<open>Remove\<close> goes through: it returns true; the frame has no entry in
  \<open>node_store_\<close> any more, the page is erased from the page table, the frame is zeroed
  with its metadata reset and appended to the free list. The disk manager receives
  one call, \<open>deallocate_page\<close>; the stored pages are untouched and no \<open>write_page\<close> is
  added, so the dirty bytes are discarded.
\<close>

lemma delete_page_discards_dirty:
  assumes res: "page_table s pid = Some f" and ok: "frame_ok s f"
    and unpinned: "pin_count (pages s ! nat f) = 0"
    and dirty: "is_dirty (pages s ! nat f)"
    and rem: "Remove_frame f (replacer s) = Inr r1"
  shows "\<exists>s'. DeletePage s pid = Inr (True, s') \<and>
           replacer s' = r1 \<and> node_store r1 f = None \<and>
           page_table s' = (page_table s)(pid := None) \<and>
           pages s' = (pages s)[nat f := new_frame] \<and>
           free_list s' = free_list s @ [f] \<and>
           pool_size s' = pool_size s \<and> next_page_id s' = next_page_id s \<and>
           disk_pages (disk_manager s') = disk_pages (disk_manager s) \<and>
           disk_log (disk_manager s') = disk_log (disk_manager s) @ [EvDeallocatePage pid] \<and>
           filter is_write (disk_log (disk_manager s')) = filter is_write (disk_log (disk_manager s))"
proof -
  have "ResetMetadata (ResetMemory (pages s ! nat f)) = new_frame"
    by (simp add: ResetMetadata_def ResetMemory_def new_frame_def)
  then show ?thesis
    using assms Remove_frame_untracks [OF rem]
    by (simp add: DeletePage_def Let_def DeallocatePage_def is_write_def)
qed

lemma delete_page_discards_dirty_example:
  "\<exists>s'. DeletePage dirty_pool 0 = Inr (True, s') \<and>
        page_table s' 0 = None \<and> free_list s' = [0] \<and>
        disk_log (disk_manager s') = [EvDeallocatePage 0] \<and>
        disk_pages (disk_manager s') 0 = None"
proof -
  have h: "page_table dirty_pool 0 = Some 0" "frame_ok dirty_pool 0"
    "pin_count (pages dirty_pool ! nat 0) = 0" "is_dirty (pages dirty_pool ! nat 0)"
    by (simp_all add: dirty_pool_def frame_ok_def)
  obtain r1 where r: "Remove_frame 0 (replacer dirty_pool) = Inr r1"
    by (simp add: dirty_pool_def Remove_frame_def frame_id_cast_def Let_def)
  have d: "page_table dirty_pool = [0 \<mapsto> 0]" "free_list dirty_pool = []"
    "disk_manager dirty_pool = empty_disk"
    by (simp_all add: dirty_pool_def)
  from delete_page_discards_dirty [OF h r] show ?thesis
    by (auto simp: d empty_disk_def)
qed

text \<open>
  In a replacer state that satisfies \<open>replacer_inv\<close>, as every state reached with
  \<open>2 \<le> K\<close> does, \<open>Remove\<close> also takes the node out of both lists.
\<close>

lemma Remove_frame_leaves_lists:
  assumes inv: "replacer_inv r" and old: "node_store r f = Some a"
    and ok: "Remove_frame f r = Inr r'"
  shows "node_store r' f = None \<and> a \<notin> set (less_k_list r') \<and> a \<notin> set (more_k_list r')"
proof -
  from store_facts [OF inv old] old have tra: "tracked r a" by (simp add: tracked_def)
  have less: "a \<in> set (less_k_list r) \<longleftrightarrow> get_access_count (nodes r ! a) < repl_k r"
    and more: "a \<in> set (more_k_list r) \<longleftrightarrow> repl_k r \<le> get_access_count (nodes r ! a)"
    using inv tra by (simp_all add: replacer_inv_def)
  from ok old have r': "node_store r' f = None"
    "less_k_list r' = (if get_access_count (nodes r ! a) < repl_k r
                       then removeAll a (less_k_list r) else less_k_list r)"
    "more_k_list r' = (if get_access_count (nodes r ! a) < repl_k r
                       then more_k_list r else removeAll a (more_k_list r))"
    by (auto simp: Remove_frame_def Let_def split: if_splits)
  show ?thesis using less more by (simp add: r')
qed

lemma k1_dirty_reached:
  "bpm_run [OpNewPage, OpUnpinPage 0 True] (BufferPoolManager_init 1 empty_disk 1 ev)
     = Inr (k1_dirty_pool ev)"
  by (simp add: bpm_simps replacer_simps frame_id_cast_def k1_dirty_pool_def)

lemma k1_delete:
  "DeletePage (k1_dirty_pool ev) 0 = Inr (True, k1_deleted_pool ev)"
  by (simp add: bpm_simps replacer_simps frame_id_cast_def k1_dirty_pool_def k1_deleted_pool_def)

lemma k1_victim:
  "\<exists>s s'. bpm_run k1_victim_ops (BufferPoolManager_init 2 empty_disk 1 ev) = Inr s \<and>
      page_table s 2 = Some 0 \<and> pin_count (pages s ! 0) = 1 \<and> free_list s = [] \<and>
      NewPage s = Inr (Some (0, 3), s') \<and> page_table s' 2 = None"
  by (simp add: k1_victim_ops_def bpm_simps replacer_simps frame_id_cast_def eval_nat_numeral)

text \<open>
  C10 (the code departs from the claim). With \<open>K = 1\<close>, for either initial value of
  the evictable flag: page 0 is resident in frame 0, unpinned and dirty. \<open>DeletePage(0)\<close>
  returns true, writes nothing and puts frame 0 on the free list, but the frame is not
  removed from the replacer: \<open>RecordAccess\<close> has put the new node into \<open>less_k_list\<close>
  (it does so whatever \<open>K\<close> is), while \<open>Remove\<close> picks the list by
  \<open>get_access_count() < k_\<close>, which is false for one access and \<open>K = 1\<close>, and removes
  the node from \<open>more_k_list\<close>. The node of frame 0 stays in \<open>less_k_list\<close>, evictable.
  In the pool of two frames the next victim is therefore frame 0, although page 2 is
  pinned in it: \<open>NewPage\<close> hands frame 0 out again and page 2 loses its page table
  entry.
\<close>

theorem delete_page_leaves_stale_node:
  "bpm_run [OpNewPage, OpUnpinPage 0 True] (BufferPoolManager_init 1 empty_disk 1 ev)
     = Inr (k1_dirty_pool ev) \<and>
   page_table (k1_dirty_pool ev) 0 = Some 0 \<and>
   pin_count (pages (k1_dirty_pool ev) ! 0) = 0 \<and>
   is_dirty (pages (k1_dirty_pool ev) ! 0) \<and>
   DeletePage (k1_dirty_pool ev) 0 = Inr (True, k1_deleted_pool ev) \<and>
   free_list (k1_deleted_pool ev) = [0] \<and>
   less_k_list (replacer (k1_deleted_pool ev)) = [0] \<and>
   fid (nodes (replacer (k1_deleted_pool ev)) ! 0) = 0 \<and>
   is_evictable (nodes (replacer (k1_deleted_pool ev)) ! 0) \<and>
   (\<exists>s s'. bpm_run k1_victim_ops (BufferPoolManager_init 2 empty_disk 1 ev) = Inr s \<and>
      page_table s 2 = Some 0 \<and> pin_count (pages s ! 0) = 1 \<and> free_list s = [] \<and>
      NewPage s = Inr (Some (0, 3), s') \<and> page_table s' 2 = None)"
proof -
  have "page_table (k1_dirty_pool ev) 0 = Some 0"
    "pin_count (pages (k1_dirty_pool ev) ! 0) = 0"
    "is_dirty (pages (k1_dirty_pool ev) ! 0)"
    by (simp_all add: k1_dirty_pool_def)
  moreover have "free_list (k1_deleted_pool ev) = [0]"
    "less_k_list (replacer (k1_deleted_pool ev)) = [0]"
    "fid (nodes (replacer (k1_deleted_pool ev)) ! 0) = 0"
    "is_evictable (nodes (replacer (k1_deleted_pool ev)) ! 0)"
    by (simp_all add: k1_deleted_pool_def)
  ultimately show ?thesis
    using k1_dirty_reached [of ev] k1_delete [of ev] k1_victim [of ev] by simp
qed

end
